theory Spec2Isabelle
  imports Main "HOL-Library.Sublist"
begin

section \<open>Python strings\<close>

text \<open>
  A Python \<^verbatim>\<open>str\<close> is a sequence of code points. The strings of this development are
  taken over the code points U+0000 to U+00FF, one \<^typ>\<open>char\<close> per code point: this
  covers every literal of \<^verbatim>\<open>scraper.py\<close> (its only non-ASCII characters are
  U+00E1, U+00E9, U+00ED, U+00F1, U+00F3 and U+00FA), and on this range
  \<^verbatim>\<open>str.lower\<close> maps character by character and stays inside the range.
  A non-ASCII character is written by its code point, \<open>CHR 0xE9\<close>.
\<close>

text \<open>
  The characters for which \<^verbatim>\<open>str.isspace\<close> holds, which are also the ones that
  \<^verbatim>\<open>\s\<close> matches in a \<^verbatim>\<open>str\<close> pattern and that \<^verbatim>\<open>str.strip()\<close> removes: TAB, LF, VT, FF,
  CR, the separators U+001C to U+001F, the space, U+0085 and U+00A0.
\<close>

definition is_space :: "char \<Rightarrow> bool" where
  "is_space c \<longleftrightarrow> (of_char c :: nat) \<in> {9, 10, 11, 12, 13, 28, 29, 30, 31, 32, 133, 160}"

text \<open>
  \<^verbatim>\<open>str.lower\<close>: the letters A to Z and the capital letters U+00C0 to U+00DE (all
  but the multiplication sign U+00D7) move up by 32; every other character stays.
\<close>

definition py_lower_char :: "char \<Rightarrow> char" where
  "py_lower_char c =
     (let n = (of_char c :: nat)
      in if (65 \<le> n \<and> n \<le> 90) \<or> (192 \<le> n \<and> n \<le> 222 \<and> n \<noteq> 215)
         then char_of (n + 32) else c)"

definition py_lower :: "string \<Rightarrow> string" where
  "py_lower s = map py_lower_char s"

text \<open>\<^verbatim>\<open>s.strip()\<close>: the whitespace at both ends is removed.\<close>

definition py_strip :: "string \<Rightarrow> string" where
  "py_strip s = rev (dropWhile is_space (rev (dropWhile is_space s)))"

text \<open>
  \<^verbatim>\<open>re.sub(r"\s+", " ", s)\<close>: scanning from the left, every maximal run of whitespace
  is replaced by one space.
\<close>

function re_sub_ws :: "string \<Rightarrow> string" where
  "re_sub_ws [] = []"
| "re_sub_ws (c # cs) =
     (if is_space c then CHR '' '' # re_sub_ws (dropWhile is_space cs)
      else c # re_sub_ws cs)"
  by pat_completeness auto
termination
  by (relation "measure length") (auto simp: length_dropWhile_le less_Suc_eq_le)

text \<open>
  \<^verbatim>\<open>text.replace(old, new)\<close> for one-character \<^verbatim>\<open>old\<close> and \<^verbatim>\<open>new\<close>, the only way
  \<^verbatim>\<open>_normalize_text\<close> calls it.
\<close>

definition py_replace_char :: "char \<Rightarrow> char \<Rightarrow> string \<Rightarrow> string" where
  "py_replace_char old new text = map (\<lambda>c. if c = old then new else c) text"

section \<open>Text normalisation and the key of a business\<close>

text \<open>The dictionary \<^verbatim>\<open>replacements\<close> of \<^verbatim>\<open>_normalize_text\<close>, in its order.\<close>

definition replacements :: "(char \<times> char) list" where
  "replacements =
     [(CHR 0xE1, CHR ''a''), (CHR 0xE9, CHR ''e''), (CHR 0xED, CHR ''i''),
      (CHR 0xF3, CHR ''o''), (CHR 0xFA, CHR ''u''), (CHR 0xF1, CHR ''n'')]"

definition normalize_text :: "string \<Rightarrow> string" where
  "normalize_text text =
     foldl (\<lambda>t (old, new). py_replace_char old new t) (py_lower text) replacements"

text \<open>The inner function \<^verbatim>\<open>norm\<close> of \<^verbatim>\<open>_make_key\<close>, and \<^verbatim>\<open>_make_key\<close> itself.\<close>

definition norm :: "string \<Rightarrow> string" where
  "norm s = py_strip (re_sub_ws (py_lower s))"

definition make_key :: "string \<Rightarrow> string \<Rightarrow> string \<times> string" where
  "make_key nombre direccion = (norm nombre, norm direccion)"

section \<open>Search terms and location terms\<close>

text \<open>
  The dictionary \<^verbatim>\<open>self.sinonimos\<close>, set once in \<^verbatim>\<open>__init__\<close>. A Python dictionary
  is iterated in insertion order, so it is an association list.
\<close>

definition sinonimos :: "(string \<times> string list) list" where
  "sinonimos =
     [(''restaurante'',
         [''restaurant'', ''comida'', ''food'', ''gastronom'' @ [CHR 0xED] @ ''a'', ''cocina'']),
      (''hotel'', [''hospedaje'', ''alojamiento'', ''hostal'', ''lodge'', ''inn'']),
      (''miner'' @ [CHR 0xED] @ ''a'',
         [''mining'', ''minera'', ''mina'', ''extracci'' @ [CHR 0xF3] @ ''n minera'']),
      (''construcci'' @ [CHR 0xF3] @ ''n'',
         [''construccion'', ''building'', ''obra'', ''contractor'']),
      (''farmacia'', [''pharmacy'', ''botica'', ''drugstore'']),
      (''panader'' @ [CHR 0xED] @ ''a'',
         [''bakery'', ''pan'', ''bread'', ''pasteler'' @ [CHR 0xED] @ ''a'']),
      (''ferreter'' @ [CHR 0xED] @ ''a'', [''hardware store'', ''herramientas'', ''tools''])]"

text \<open>
  The inner loop of \<^verbatim>\<open>expand_search_term\<close> over \<^verbatim>\<open>ordered\<close>, with its two
  accumulators \<^verbatim>\<open>unique\<close> and \<^verbatim>\<open>seen\<close>.
\<close>

fun unique_loop :: "string list \<Rightarrow> string list \<Rightarrow> string set \<Rightarrow> string list" where
  "unique_loop [] unique seen = unique"
| "unique_loop (t # ordered) unique seen =
     (let normalized = normalize_text t
      in if normalized \<notin> seen
         then unique_loop ordered (unique @ [t]) (insert normalized seen)
         else unique_loop ordered unique seen)"

text \<open>
  The test of line 89. On strings, Python's \<^verbatim>\<open>a in b\<close> asks whether \<^verbatim>\<open>a\<close> is a
  contiguous part of \<^verbatim>\<open>b\<close> (\<^const>\<open>sublist\<close>); on a list it asks for an equal element.
\<close>

definition term_matches :: "string \<Rightarrow> string \<times> string list \<Rightarrow> bool" where
  "term_matches rubro item =
     (let rubro_norm = normalize_text rubro;
          key_norm = normalize_text (fst item);
          synonyms_norm = map normalize_text (snd item)
      in rubro_norm = key_norm \<or> rubro_norm \<in> set synonyms_norm \<or> sublist rubro_norm key_norm)"

text \<open>The outer loop over the items of the dictionary; it returns at the first match.\<close>

fun expand_loop :: "(string \<times> string list) list \<Rightarrow> string \<Rightarrow> string list" where
  "expand_loop [] rubro = [rubro]"
| "expand_loop (item # items) rubro =
     (if term_matches rubro item
      then take 3 (unique_loop (py_strip rubro # snd item) [] {})
      else expand_loop items rubro)"

definition expand_search_term :: "string \<Rightarrow> string list" where
  "expand_search_term rubro = expand_loop sinonimos rubro"

definition distritos_lima :: "string list" where
  "distritos_lima =
     [''Lima'', ''Miraflores'', ''San Isidro'', ''Santiago de Surco'', ''La Molina'',
      ''San Borja'', ''Barranco'', ''San Miguel'', ''Pueblo Libre'', ''Jesus Maria'',
      ''Magdalena del Mar'', ''Lince'', ''Bre'' @ [CHR 0xF1] @ ''a'', ''Rimac'', ''San Luis'',
      ''Chorrillos'', ''Ate'', ''Callao'', ''Los Olivos'', ''San Martin de Porres'',
      ''Independencia'', ''Comas'', ''Villa El Salvador'', ''Villa Maria del Triunfo'',
      ''San Juan de Lurigancho'', ''San Juan de Miraflores'', ''El Agustino'',
      ''Santa Anita'', ''La Victoria'', ''Carabayllo'', ''Puente Piedra'', ''Surquillo'']"

definition build_location_terms :: "string \<Rightarrow> string \<Rightarrow> string list" where
  "build_location_terms departamento pais =
     (let departamento_norm = py_lower (py_strip departamento)
      in if departamento_norm = ''lima''
         then map (\<lambda>distrito. distrito @ '', Lima, '' @ pais) distritos_lima
         else [departamento @ '', '' @ pais])"

section \<open>The scraper object\<close>

text \<open>
  The dictionary that \<^verbatim>\<open>_get_business_details\<close> builds has a fixed set of keys, all
  with string values: a record.
\<close>

record business =
  nombre :: string
  direccion :: string
  telefono :: string
  rating :: string
  reviews :: string
  estado :: string
  correo :: string
  sitio_web :: string
  departamento :: string

text \<open>
  The events handed to \<^verbatim>\<open>progress_callback\<close>. The text of a log message is an
  f-string of the source; the model keeps which message it is and the values it is
  filled with. The \<^verbatim>\<open>percentage\<close> of a progress event is computed in floating point
  and is left out.
\<close>

datatype severity = Info | Success | Error

datatype message =
    SearchStarted string string string
  | SmartSearch "string list"
  | TermOfZone nat nat nat nat string string
  | LoadingPage nat
  | PageLoaded
  | PageLoadError string
  | LoadingResults
  | EnoughLoaded nat
  | LoadedSoFar nat
  | TotalFound nat
  | ScrollError string
  | ExtractingData
  | Processing nat
  | Advance nat
  | BatchDone nat
  | Completed nat
  | ScrapingPaused
  | ScrapingResumed
  | ScrapingStopped

datatype event =
    Log message severity
  | Result business nat
  | Progress nat int

text \<open>
  What the crawl does to the world outside the object, in the order it happens: the
  events it emits, the calls it makes to the page, the times it sleeps (in
  milliseconds).
\<close>

datatype effect =
    Emit event
  | Goto string
  | Sleep nat
  | WaitForSelector
  | CountFeed
  | ScrollFeed
  | LocateLinks
  | LaunchBrowser
  | CloseBrowser

text \<open>
  The attributes of \<^verbatim>\<open>GoogleMapsScraper\<close> that change during a session.
  \<^verbatim>\<open>effects\<close> is not an attribute: it records the effects so far.
\<close>

record GoogleMapsScraper =
  is_running :: bool
  is_paused :: bool
  results :: "business list"
  seen_keys :: "(string \<times> string) set"
  effects :: "effect list"

definition retry_count :: nat where
  "retry_count = 3"

definition init_scraper :: GoogleMapsScraper where
  "init_scraper =
     \<lparr>is_running = False, is_paused = False, results = [], seen_keys = {}, effects = []\<rparr>"

definition perform :: "effect \<Rightarrow> GoogleMapsScraper \<Rightarrow> GoogleMapsScraper" where
  "perform e st = st\<lparr>effects := effects st @ [e]\<rparr>"

definition emit_progress :: "event \<Rightarrow> GoogleMapsScraper \<Rightarrow> GoogleMapsScraper" where
  "emit_progress ev st = perform (Emit ev) st"

definition pause :: "GoogleMapsScraper \<Rightarrow> GoogleMapsScraper" where
  "pause st = emit_progress (Log ScrapingPaused Info) (st\<lparr>is_paused := True\<rparr>)"

definition resume :: "GoogleMapsScraper \<Rightarrow> GoogleMapsScraper" where
  "resume st = emit_progress (Log ScrapingResumed Success) (st\<lparr>is_paused := False\<rparr>)"

definition stop :: "GoogleMapsScraper \<Rightarrow> GoogleMapsScraper" where
  "stop st =
     emit_progress (Log ScrapingStopped Info) (st\<lparr>is_running := False, is_paused := False\<rparr>)"

text \<open>
  The crawl is one asyncio task: other coroutines run only while it is suspended in an
  \<^verbatim>\<open>await\<close>. What they can do to the object is call \<^verbatim>\<open>pause\<close>, \<^verbatim>\<open>resume\<close> or
  \<^verbatim>\<open>stop\<close>; each \<^verbatim>\<open>await\<close> of the model is given the calls made during it.
\<close>

datatype ctl = Pause | Resume | Stop

fun control :: "ctl \<Rightarrow> GoogleMapsScraper \<Rightarrow> GoogleMapsScraper" where
  "control Pause st = pause st"
| "control Resume st = resume st"
| "control Stop st = stop st"

definition await_point :: "ctl list \<Rightarrow> GoogleMapsScraper \<Rightarrow> GoogleMapsScraper" where
  "await_point cs st = fold control cs st"

text \<open>
  How a coroutine ends: it returns, it raises, or it is still waiting when the
  environment it was given is used up.
\<close>

datatype 'a outcome = Returned 'a | Raised string 'a | Blocked 'a

text \<open>
  \<^verbatim>\<open>_wait_if_paused\<close>: one list of calls for each \<^verbatim>\<open>asyncio.sleep(0.4)\<close>.
\<close>

fun wait_if_paused :: "ctl list list \<Rightarrow> GoogleMapsScraper \<Rightarrow> GoogleMapsScraper outcome" where
  "wait_if_paused [] st =
     (if is_paused st \<and> is_running st then Blocked st else Returned st)"
| "wait_if_paused (p # polls) st =
     (if is_paused st \<and> is_running st
      then wait_if_paused polls (await_point p (perform (Sleep 400) st))
      else Returned st)"

section \<open>The stages of the crawl\<close>

text \<open>
  A call to the page either gives a value or raises; with it comes the list of
  \<^verbatim>\<open>pause\<close>, \<^verbatim>\<open>resume\<close> and \<^verbatim>\<open>stop\<close> calls made while the crawl was suspended
  in the call (and in the sleep that follows it, if one does).
\<close>

datatype 'a reply = Reply 'a | Throws string

type_synonym 'a awaited = "'a reply \<times> ctl list"

subsection \<open>Loading the page (lines 174 to 194 of \<^verbatim>\<open>scraper.py\<close>)\<close>

text \<open>
  \<^verbatim>\<open>for attempt in range(1, self.retry_count + 1)\<close>: \<open>page attempt\<close> is what
  \<^verbatim>\<open>page.goto\<close> does at that attempt.
\<close>

function goto_retry ::
  "(nat \<Rightarrow> unit awaited) \<Rightarrow> string \<Rightarrow> nat \<Rightarrow> GoogleMapsScraper \<Rightarrow> GoogleMapsScraper" where
  "goto_retry page url attempt st =
     (if attempt < retry_count + 1
      then
        (let st1 = perform (Goto url) (emit_progress (Log (LoadingPage attempt) Info) st)
         in case page attempt of
              (Reply _, cs) \<Rightarrow>
                emit_progress (Log PageLoaded Success) (await_point cs (perform (Sleep 3000) st1))
            | (Throws e, cs) \<Rightarrow>
                if attempt < retry_count
                then goto_retry page url (attempt + 1) (await_point cs (perform (Sleep 2000) st1))
                else goto_retry page url (attempt + 1)
                       (emit_progress (Log (PageLoadError e) Error) (await_point cs st1)))
      else st)"
  by pat_completeness auto
termination
  by (relation "measure (\<lambda>(page, url, attempt, st). retry_count + 1 - attempt)") auto

subsection \<open>Scrolling (\<^verbatim>\<open>_scroll_extensive\<close>)\<close>

record scroll_env =
  wait_selector :: "unit awaited"
  feed_count :: "nat \<Rightarrow> nat awaited"
  scroll_polls :: "nat \<Rightarrow> ctl list list"
  scroll_feed :: "nat \<Rightarrow> unit awaited"
  last_count :: "nat awaited"

record scroll_vars =
  previous :: nat
  no_change_count :: nat
  scroll_count :: nat

definition max_no_change :: nat where
  "max_no_change = 8"

definition max_scrolls :: nat where
  "max_scrolls = 100"

text \<open>
  One pass through the body of the \<^verbatim>\<open>while\<close> loop: it either goes on to the next
  test of the loop condition or leaves the loop (\<^verbatim>\<open>break\<close>, an exception, or a pause
  that is not released). The replies of the environment are indexed by the value of
  \<^verbatim>\<open>scroll_count\<close>, which counts the passes.
\<close>

datatype 'a pass = Continue 'a | Leave "'a outcome"

definition scroll_body ::
  "scroll_env \<Rightarrow> int \<Rightarrow> scroll_vars \<Rightarrow> GoogleMapsScraper
     \<Rightarrow> (scroll_vars \<times> GoogleMapsScraper) pass" where
  "scroll_body env max_results v st =
     (case feed_count env (scroll_count v) of
        (Throws e, cs) \<Rightarrow> Leave (Raised e (v, await_point cs (perform CountFeed st)))
      | (Reply current, cs) \<Rightarrow>
          (case wait_if_paused (scroll_polls env (scroll_count v))
                  (await_point cs (perform CountFeed st)) of
             Blocked st1 \<Rightarrow> Leave (Blocked (v, st1))
           | Raised e st1 \<Rightarrow> Leave (Raised e (v, st1))
           | Returned st1 \<Rightarrow>
               if int current \<ge> max_results
               then Leave (Returned (v, emit_progress (Log (EnoughLoaded current) Success) st1))
               else
                 (case scroll_feed env (scroll_count v) of
                    (Throws e, cs2) \<Rightarrow>
                      Leave (Raised e (v, await_point cs2 (perform ScrollFeed st1)))
                  | (Reply _, cs2) \<Rightarrow>
                      (let st2 = await_point cs2 (perform (Sleep 1200) (perform ScrollFeed st1));
                           v1 = v\<lparr>scroll_count := scroll_count v + 1\<rparr>
                       in if current = previous v
                          then Continue (v1\<lparr>no_change_count := no_change_count v + 1\<rparr>, st2)
                          else Continue
                                 (v1\<lparr>no_change_count := 0, previous := current\<rparr>,
                                  if current mod 10 = 0
                                  then emit_progress (Log (LoadedSoFar current) Info) st2
                                  else st2)))))"

lemma scroll_body_Continue:
  "scroll_body env max_results v st = Continue (v', st') \<Longrightarrow>
     scroll_count v' = scroll_count v + 1"
  by (auto simp: scroll_body_def Let_def split: prod.splits reply.splits outcome.splits if_splits)

function scroll_loop ::
  "scroll_env \<Rightarrow> int \<Rightarrow> scroll_vars \<Rightarrow> GoogleMapsScraper
     \<Rightarrow> (scroll_vars \<times> GoogleMapsScraper) outcome" where
  "scroll_loop env max_results v st =
     (if scroll_count v < max_scrolls \<and> no_change_count v < max_no_change \<and> is_running st
      then
        (case scroll_body env max_results v st of
           Continue (v', st') \<Rightarrow> scroll_loop env max_results v' st'
         | Leave out \<Rightarrow> out)
      else Returned (v, st))"
  by pat_completeness auto
termination
  by (relation "measure (\<lambda>(env, max_results, v, st). max_scrolls - scroll_count v)")
     (auto dest: scroll_body_Continue)

definition scroll_extensive ::
  "scroll_env \<Rightarrow> int \<Rightarrow> GoogleMapsScraper \<Rightarrow> GoogleMapsScraper outcome" where
  "scroll_extensive env max_results st =
     (let st0 = perform WaitForSelector (emit_progress (Log LoadingResults Info) st)
      in case wait_selector env of
           (Throws e, cs) \<Rightarrow>
             Returned (emit_progress (Log (ScrollError e) Error) (await_point cs st0))
         | (Reply _, cs) \<Rightarrow>
             (case scroll_loop env max_results
                     \<lparr>previous = 0, no_change_count = 0, scroll_count = 0\<rparr>
                     (await_point cs st0) of
                Blocked (v, st1) \<Rightarrow> Blocked st1
              | Raised e (v, st1) \<Rightarrow> Returned (emit_progress (Log (ScrollError e) Error) st1)
              | Returned (v, st1) \<Rightarrow>
                  (case last_count env of
                     (Throws e, cs2) \<Rightarrow>
                       Returned (emit_progress (Log (ScrollError e) Error)
                                   (await_point cs2 (perform CountFeed st1)))
                   | (Reply final_count, cs2) \<Rightarrow>
                       Returned (emit_progress (Log (TotalFound final_count) Success)
                                   (await_point cs2 (perform CountFeed st1))))))"

subsection \<open>Extraction (\<^verbatim>\<open>_extract_business_data\<close> and its \<^verbatim>\<open>process_link\<close>)\<close>

text \<open>
  Lines 329 to 352 of \<^verbatim>\<open>process_link\<close>: what a task does with the value of
  \<^verbatim>\<open>_get_business_details\<close>. There is no \<^verbatim>\<open>await\<close> in these lines, so no other
  coroutine runs between the test of \<^verbatim>\<open>_seen_keys\<close> and the two insertions.
  \<^verbatim>\<open>max_results\<close> is positive (it is \<^verbatim>\<open>effective_limit\<close>), so the division of line
  345 does not raise.
\<close>

definition process_link_result ::
  "int \<Rightarrow> business option \<Rightarrow> GoogleMapsScraper \<Rightarrow> GoogleMapsScraper" where
  "process_link_result max_results data st =
     (case data of
        None \<Rightarrow> st
      | Some d \<Rightarrow>
          if nombre d = [] then st
          else
            (let key = make_key (nombre d) (direccion d)
             in if key \<in> seen_keys st then st
                else
                  (let st1 = st\<lparr>seen_keys := insert key (seen_keys st),
                                  results := results st @ [d]\<rparr>;
                       st2 = emit_progress (Result d (length (results st1))) st1;
                       st3 = emit_progress (Progress (length (results st2)) max_results) st2
                   in if length (results st3) mod 10 = 0
                      then emit_progress (Log (Advance (length (results st3))) Info) st3
                      else st3)))"

text \<open>
  The tasks that \<^verbatim>\<open>asyncio.gather\<close> runs, one per link. A task tests
  \<^verbatim>\<open>is_running\<close> (line 305), waits for the semaphore, and once it holds it goes
  through the awaits of lines 316 to 328, where it reads and writes nothing of the
  object; then it runs lines 329 to 352 and releases the semaphore.
\<close>

datatype task_pc = NotStarted | WaitingSem | InFlight | Ended

record batch =
  obj :: GoogleMapsScraper
  tasks :: "task_pc list"
  permits :: nat

text \<open>
  The steps of a batch, in any interleaving: a task starts, gets the semaphore, or comes
  to its end with the value of \<^verbatim>\<open>_get_business_details\<close> (\<open>None\<close> when the link has
  no \<^verbatim>\<open>href\<close>, when the business has no name, or when something raised, which line 355
  swallows); a task that waits is cancelled; another coroutine calls \<^verbatim>\<open>pause\<close>,
  \<^verbatim>\<open>resume\<close> or \<^verbatim>\<open>stop\<close>. A step that is not possible in the state changes nothing.
\<close>

datatype batch_event =
    Begin nat
  | Acquire nat
  | Finish nat "business option"
  | Cancel nat
  | Call ctl

fun batch_step :: "int \<Rightarrow> batch_event \<Rightarrow> batch \<Rightarrow> batch" where
  "batch_step max_results (Begin i) b =
     (if i < length (tasks b) \<and> tasks b ! i = NotStarted
      then b\<lparr>tasks := (tasks b)[i := (if is_running (obj b) then WaitingSem else Ended)]\<rparr>
      else b)"
| "batch_step max_results (Acquire i) b =
     (if i < length (tasks b) \<and> tasks b ! i = WaitingSem \<and> 0 < permits b
      then b\<lparr>tasks := (tasks b)[i := InFlight], permits := permits b - 1\<rparr>
      else b)"
| "batch_step max_results (Finish i data) b =
     (if i < length (tasks b) \<and> tasks b ! i = InFlight
      then b\<lparr>obj := process_link_result max_results data (obj b),
              tasks := (tasks b)[i := Ended], permits := permits b + 1\<rparr>
      else b)"
| "batch_step max_results (Cancel i) b =
     (if i < length (tasks b) \<and> tasks b ! i = WaitingSem
      then b\<lparr>tasks := (tasks b)[i := Ended]\<rparr>
      else if i < length (tasks b) \<and> tasks b ! i = InFlight
      then b\<lparr>tasks := (tasks b)[i := Ended], permits := permits b + 1\<rparr>
      else b)"
| "batch_step max_results (Call c) b = b\<lparr>obj := control c (obj b)\<rparr>"

definition run_batch :: "int \<Rightarrow> batch_event list \<Rightarrow> batch \<Rightarrow> batch" where
  "run_batch max_results evs b = fold (batch_step max_results) evs b"

definition new_batch :: "GoogleMapsScraper \<Rightarrow> nat \<Rightarrow> batch" where
  "new_batch st n = \<lparr>obj = st, tasks = replicate n NotStarted, permits = 5\<rparr>"

record extract_env =
  links :: "nat awaited"
  schedule :: "batch_event list"

text \<open>
  \<^verbatim>\<open>_extract_business_data\<close>: \<open>links\<close> is how many links the locator finds;
  \<^verbatim>\<open>gather\<close> returns when every task has ended.
\<close>

definition extract_business_data ::
  "extract_env \<Rightarrow> int \<Rightarrow> GoogleMapsScraper \<Rightarrow> GoogleMapsScraper outcome" where
  "extract_business_data env max_results st =
     (let st0 = perform LocateLinks (emit_progress (Log ExtractingData Info) st)
      in case links env of
           (Throws e, cs) \<Rightarrow> Raised e (await_point cs st0)
         | (Reply n, cs) \<Rightarrow>
             (let st1 = await_point cs st0;
                  remaining = max_results - int (length (results st1))
              in if remaining \<le> 0 then Returned st1
                 else
                   (let total_links = nat (min (int n) remaining);
                        st2 = emit_progress (Log (Processing total_links) Info) st1;
                        b = run_batch max_results (schedule env) (new_batch st2 total_links)
                    in if list_all (\<lambda>pc. pc = Ended) (tasks b)
                       then Returned (emit_progress
                              (Log (BatchDone (length (results (obj b)))) Success) (obj b))
                       else Blocked (obj b))))"

subsection \<open>The loops of \<^verbatim>\<open>scrape\<close>\<close>

record iter_env =
  term_polls :: "ctl list list"
  page_goto :: "nat \<Rightarrow> unit awaited"
  scrolling :: scroll_env
  extraction :: extract_env

text \<open>
  Lines 163 to 201, the body of the inner loop for one search term at one location:
  it goes on to the next term, or leaves the loop (the \<^verbatim>\<open>break\<close> of line 199, an
  exception, a pause that is not released).
\<close>

definition visit ::
  "iter_env \<Rightarrow> int \<Rightarrow> message option \<Rightarrow> string \<Rightarrow> string \<Rightarrow> GoogleMapsScraper
     \<Rightarrow> GoogleMapsScraper pass" where
  "visit env max_results announce search_term location st =
     (case wait_if_paused (term_polls env) st of
        Blocked s \<Rightarrow> Leave (Blocked s)
      | Raised e s \<Rightarrow> Leave (Raised e s)
      | Returned st1 \<Rightarrow>
          (let st2 = (case announce of None \<Rightarrow> st1 | Some m \<Rightarrow> emit_progress (Log m Info) st1);
               search_query = search_term @ '' en '' @ location;
               url = ''https://www.google.com/maps/search/''
                       @ py_replace_char (CHR '' '') (CHR ''+'') search_query;
               st3 = goto_retry (page_goto env) url 1 st2
           in case scroll_extensive (scrolling env) max_results st3 of
                Blocked s \<Rightarrow> Leave (Blocked s)
              | Raised e s \<Rightarrow> Leave (Raised e s)
              | Returned st4 \<Rightarrow>
                  if \<not> is_running st4 then Leave (Returned st4)
                  else
                    (case extract_business_data (extraction env) max_results st4 of
                       Returned st5 \<Rightarrow> Continue st5
                     | Raised e s \<Rightarrow> Leave (Raised e s)
                     | Blocked s \<Rightarrow> Leave (Blocked s))))"

text \<open>
  The inner loop over \<^verbatim>\<open>enumerate(search_terms, 1)\<close>, from the term numbered
  \<open>term_idx\<close> on.
\<close>

fun term_loop ::
  "(nat \<Rightarrow> iter_env) \<Rightarrow> int \<Rightarrow> nat \<Rightarrow> nat \<Rightarrow> nat \<Rightarrow> string \<Rightarrow> nat \<Rightarrow> string list
     \<Rightarrow> GoogleMapsScraper \<Rightarrow> GoogleMapsScraper outcome" where
  "term_loop env max_results n_terms n_locs loc_idx location term_idx [] st = Returned st"
| "term_loop env max_results n_terms n_locs loc_idx location term_idx (search_term # rest) st =
     (if \<not> is_running st then Returned st
      else
        (case visit (env term_idx) max_results
                (if n_terms > 1 \<or> n_locs > 1
                 then Some (TermOfZone term_idx n_terms loc_idx n_locs search_term location)
                 else None)
                search_term location st of
           Continue st' \<Rightarrow>
             term_loop env max_results n_terms n_locs loc_idx location (term_idx + 1) rest st'
         | Leave out \<Rightarrow> out))"

text \<open>
  The outer loop over \<^verbatim>\<open>enumerate(location_terms, 1)\<close>. After a \<^verbatim>\<open>break\<close> of the
  inner loop it goes on to the next location, where line 156 tests \<^verbatim>\<open>is_running\<close>.
\<close>

fun location_loop ::
  "(nat \<Rightarrow> nat \<Rightarrow> iter_env) \<Rightarrow> int \<Rightarrow> string list \<Rightarrow> nat \<Rightarrow> nat \<Rightarrow> string list
     \<Rightarrow> GoogleMapsScraper \<Rightarrow> GoogleMapsScraper outcome" where
  "location_loop env max_results search_terms n_locs loc_idx [] st = Returned st"
| "location_loop env max_results search_terms n_locs loc_idx (location # rest) st =
     (if \<not> is_running st then Returned st
      else
        (case term_loop (env loc_idx) max_results (length search_terms) n_locs loc_idx location
                1 search_terms st of
           Returned st' \<Rightarrow> location_loop env max_results search_terms n_locs (loc_idx + 1) rest st'
         | Raised e s \<Rightarrow> Raised e s
         | Blocked s \<Rightarrow> Blocked s))"

record scrape_env =
  browser :: "unit awaited"
  visits :: "nat \<Rightarrow> nat \<Rightarrow> iter_env"
  closing :: "unit awaited"

text \<open>
  \<^verbatim>\<open>scrape\<close>. The parameter \<^verbatim>\<open>headless\<close> only goes to the browser and is left out.
  When \<^verbatim>\<open>scrape\<close> raises, \<^verbatim>\<open>is_running\<close> keeps the value it has.
\<close>

definition scrape ::
  "scrape_env \<Rightarrow> string \<Rightarrow> string \<Rightarrow> string \<Rightarrow> int option \<Rightarrow> bool \<Rightarrow> GoogleMapsScraper
     \<Rightarrow> GoogleMapsScraper outcome" where
  "scrape env rubro depto pais cantidad expanded_search st =
     (let st0 = st\<lparr>is_running := True, is_paused := False, results := [], seen_keys := {}\<rparr>;
          search_terms = (if expanded_search then expand_search_term rubro else [rubro]);
          location_terms = build_location_terms depto pais;
          effective_limit =
            (case cantidad of None \<Rightarrow> 1000000 | Some c \<Rightarrow> if c \<noteq> 0 \<and> c > 0 then c else 1000000);
          st1 = emit_progress (Log (SearchStarted rubro depto pais) Info) st0;
          st2 = (if length search_terms > 1
                 then emit_progress (Log (SmartSearch (take 3 search_terms)) Info) st1
                 else st1);
          st3 = perform LaunchBrowser st2
      in case browser env of
           (Throws e, cs) \<Rightarrow> Raised e (await_point cs st3)
         | (Reply _, cs) \<Rightarrow>
             (case location_loop (visits env) effective_limit search_terms
                     (length location_terms) 1 location_terms (await_point cs st3) of
                Raised e s \<Rightarrow> Raised e s
              | Blocked s \<Rightarrow> Blocked s
              | Returned st4 \<Rightarrow>
                  (case closing env of
                     (Throws e, cs2) \<Rightarrow> Raised e (await_point cs2 (perform CloseBrowser st4))
                   | (Reply _, cs2) \<Rightarrow>
                       (let st5 = await_point cs2 (perform CloseBrowser st4);
                            st6 = emit_progress
                                    (Log (Completed (length (results st5))) Success) st5
                        in Returned (st6\<lparr>is_running := False\<rparr>)))))"

section \<open>The commands of \<^verbatim>\<open>main.py\<close>\<close>

text \<open>
  The two globals \<^verbatim>\<open>scraper\<close> and \<^verbatim>\<open>scraper_task\<close>. Of the task only whether it
  has ended matters to the commands.
\<close>

datatype task = TaskRunning | TaskEnded

record app =
  scraper :: "GoogleMapsScraper option"
  scraper_task :: "task option"

definition init_app :: app where
  "init_app = \<lparr>scraper = None, scraper_task = None\<rparr>"

datatype http_error = HTTPException nat string

record ScraperResponse =
  status :: string
  message :: string

record ScraperConfig =
  cfg_rubro :: string
  cfg_departamento :: string
  cfg_pais :: string
  cfg_cantidad :: "int option"
  cfg_headless :: bool
  cfg_expanded_search :: bool

text \<open>The default of the field \<^verbatim>\<open>pais\<close> of \<^verbatim>\<open>ScraperConfig\<close>.\<close>

definition default_pais :: string where
  "default_pais = ''Per'' @ [CHR 0xFA]"

type_synonym 'a handled = "(http_error + 'a) \<times> app"

text \<open>
  \<^verbatim>\<open>start_scraper\<close> makes a new object and a task for \<^verbatim>\<open>run_scraper\<close>; the task
  begins to run \<^verbatim>\<open>scrape\<close> only after the handler has returned.
\<close>

definition start_scraper :: "ScraperConfig \<Rightarrow> app \<Rightarrow> ScraperResponse handled" where
  "start_scraper config g =
     (case scraper g of
        Some s \<Rightarrow>
          if is_running s then (Inl (HTTPException 400 ''Scraper is already running''), g)
          else (Inr \<lparr>status = ''started'',
                     message = ''Scraping iniciado para '' @ [CHR 0x27] @ cfg_rubro config
                                 @ [CHR 0x27] @ '' en '' @ cfg_departamento config\<rparr>,
                g\<lparr>scraper := Some init_scraper, scraper_task := Some TaskRunning\<rparr>)
      | None \<Rightarrow>
          (Inr \<lparr>status = ''started'',
                message = ''Scraping iniciado para '' @ [CHR 0x27] @ cfg_rubro config
                            @ [CHR 0x27] @ '' en '' @ cfg_departamento config\<rparr>,
           g\<lparr>scraper := Some init_scraper, scraper_task := Some TaskRunning\<rparr>))"

definition pause_scraper :: "app \<Rightarrow> ScraperResponse handled" where
  "pause_scraper g =
     (case scraper g of
        None \<Rightarrow> (Inl (HTTPException 400 ''No active scraper to pause''), g)
      | Some s \<Rightarrow>
          if \<not> is_running s then (Inl (HTTPException 400 ''No active scraper to pause''), g)
          else (Inr \<lparr>status = ''paused'', message = ''Scraping pausado''\<rparr>,
                g\<lparr>scraper := Some (pause s)\<rparr>))"

definition resume_scraper :: "app \<Rightarrow> ScraperResponse handled" where
  "resume_scraper g =
     (case scraper g of
        None \<Rightarrow> (Inl (HTTPException 400 ''No active scraper to resume''), g)
      | Some s \<Rightarrow>
          if \<not> is_running s then (Inl (HTTPException 400 ''No active scraper to resume''), g)
          else (Inr \<lparr>status = ''resumed'', message = ''Scraping reanudado''\<rparr>,
                g\<lparr>scraper := Some (resume s)\<rparr>))"

text \<open>
  \<^verbatim>\<open>stop_scraper\<close> calls \<^verbatim>\<open>stop\<close>, cancels the task and awaits it, so the task has
  ended when the handler answers. What the cancelled task still does to the object
  before it ends is a matter of the steps of the batch above, not of this handler.
\<close>

definition stop_scraper :: "app \<Rightarrow> ScraperResponse handled" where
  "stop_scraper g =
     (case scraper g of
        None \<Rightarrow> (Inl (HTTPException 400 ''No active scraper to stop''), g)
      | Some s \<Rightarrow>
          (Inr \<lparr>status = ''stopped'', message = ''Scraping detenido''\<rparr>,
           g\<lparr>scraper := Some (stop s),
              scraper_task := (case scraper_task g of None \<Rightarrow> None | Some t \<Rightarrow> Some TaskEnded)\<rparr>))"

record status_reply =
  reply_is_running :: bool
  reply_is_paused :: bool
  results_count :: nat

definition get_status :: "app \<Rightarrow> status_reply" where
  "get_status g =
     (case scraper g of
        None \<Rightarrow> \<lparr>reply_is_running = False, reply_is_paused = False, results_count = 0\<rparr>
      | Some s \<Rightarrow>
          \<lparr>reply_is_running = is_running s, reply_is_paused = is_paused s,
           results_count = length (results s)\<rparr>)"

definition get_results :: "app \<Rightarrow> business list" where
  "get_results g = (case scraper g of None \<Rightarrow> [] | Some s \<Rightarrow> results s)"

section \<open>Notions used to state the properties\<close>

text \<open>
  Splitting a string at its runs of whitespace (what \<^verbatim>\<open>s.split()\<close> does), joining
  words with single spaces, and removing the whitespace at the right end.
\<close>

function split_ws :: "string \<Rightarrow> string list" where
  "split_ws s =
     (case dropWhile is_space s of
        [] \<Rightarrow> []
      | c # cs \<Rightarrow> takeWhile (\<lambda>x. \<not> is_space x) (c # cs)
                   # split_ws (dropWhile (\<lambda>x. \<not> is_space x) (c # cs)))"
  by pat_completeness auto
termination
proof (relation "measure length", goal_cases)
  case 1
  show ?case by simp
next
  case (2 s c cs)
  have "\<not> is_space c"
    using 2 by (metis hd_dropWhile list.sel(1) list.distinct(1))
  then have "length (dropWhile (\<lambda>x. \<not> is_space x) (c # cs)) \<le> length cs"
    by (simp add: length_dropWhile_le)
  moreover have "length (c # cs) \<le> length s"
    using 2 by (metis length_dropWhile_le)
  ultimately show ?case by simp
qed

fun join_sp :: "string list \<Rightarrow> string" where
  "join_sp [] = []"
| "join_sp [w] = w"
| "join_sp (w # v # ws) = w @ CHR '' '' # join_sp (v # ws)"

definition strip_right :: "string \<Rightarrow> string" where
  "strip_right s = rev (dropWhile is_space (rev s))"

declare split_ws.simps [simp del]

text \<open>
  The key as the specification words it, with diacritics stripped: the only table of
  diacritics in the program is \<^const>\<open>replacements\<close>.
\<close>

definition spec_strip_diacritics :: "string \<Rightarrow> string" where
  "spec_strip_diacritics s = foldl (\<lambda>t (old, new). py_replace_char old new t) s replacements"

definition spec_dedup_key :: "string \<Rightarrow> string \<Rightarrow> string \<times> string" where
  "spec_dedup_key name address =
     (join_sp (split_ws (spec_strip_diacritics (py_lower name))),
      join_sp (split_ws (spec_strip_diacritics (py_lower address))))"

text \<open>The key of a record, as line 330 computes it.\<close>

definition key_of :: "business \<Rightarrow> string \<times> string" where
  "key_of d = make_key (nombre d) (direccion d)"

text \<open>A record with a given name and address, for examples.\<close>

definition botica :: "string \<Rightarrow> string \<Rightarrow> business" where
  "botica name address =
     \<lparr>nombre = name, direccion = address, telefono = [], rating = [], reviews = [],
      estado = [], correo = [], sitio_web = [], departamento = ''Lima''\<rparr>"

text \<open>
  Examples of the state of \<^verbatim>\<open>main.py\<close>: a session that runs, the same session after
  \<^verbatim>\<open>stop_scraper\<close>, and a configuration.
\<close>

definition running_app :: app where
  "running_app =
     \<lparr>scraper = Some (init_scraper\<lparr>is_running := True\<rparr>), scraper_task = Some TaskRunning\<rparr>"

definition stopped_app :: app where
  "stopped_app = snd (stop_scraper running_app)"

definition example_config :: ScraperConfig where
  "example_config =
     \<lparr>cfg_rubro = ''restaurante'', cfg_departamento = ''Lima'', cfg_pais = default_pais,
      cfg_cantidad = None, cfg_headless = True, cfg_expanded_search = True\<rparr>"

text \<open>
  A list of terms "deduplicated by normalized form": of the terms with the same
  normalisation only the first is kept.
\<close>

fun dedup_by_norm :: "string list \<Rightarrow> string list" where
  "dedup_by_norm [] = []"
| "dedup_by_norm (x # xs) =
     x # dedup_by_norm (filter (\<lambda>y. normalize_text y \<noteq> normalize_text x) xs)"

text \<open>What \<^const>\<open>normalize_text\<close> does to one character.\<close>

definition normalize_char :: "char \<Rightarrow> char" where
  "normalize_char c = foldl (\<lambda>t (old, new). if t = old then new else t) (py_lower_char c) replacements"

text \<open>The state in which a coroutine ended, however it ended.\<close>

fun state_of :: "'a outcome \<Rightarrow> 'a" where
  "state_of (Returned s) = s"
| "state_of (Raised e s) = s"
| "state_of (Blocked s) = s"

text \<open>
  How often an effect has happened so far. An effect is \<open>quiet\<close> when neither
  \<^verbatim>\<open>pause\<close>, \<^verbatim>\<open>resume\<close>, \<^verbatim>\<open>stop\<close> nor the pause wait produces it.
\<close>

definition done_count :: "effect \<Rightarrow> GoogleMapsScraper \<Rightarrow> nat" where
  "done_count x st = count_list (effects st) x"

definition quiet :: "effect \<Rightarrow> bool" where
  "quiet x \<longleftrightarrow> (case x of Emit ev \<Rightarrow> False | Sleep n \<Rightarrow> n \<noteq> 400 | _ \<Rightarrow> True)"

text \<open>
  The count read in pass \<open>i\<close> of the scroll loop, if the read does not raise, and the
  count read in the pass before it (0 before the first pass, as \<^verbatim>\<open>previous = 0\<close>).
  The count is \<open>unchanged\<close> in a pass when it equals the count before; it shows
  \<open>no_growth\<close>, in the words of the specification, when it is not larger.
\<close>

definition observed :: "scroll_env \<Rightarrow> nat \<Rightarrow> nat option" where
  "observed env i = (case fst (feed_count env i) of Reply n \<Rightarrow> Some n | Throws e \<Rightarrow> None)"

definition before :: "scroll_env \<Rightarrow> nat \<Rightarrow> nat option" where
  "before env i = (if i = 0 then Some 0 else observed env (i - 1))"

definition unchanged :: "scroll_env \<Rightarrow> nat \<Rightarrow> bool" where
  "unchanged env i \<longleftrightarrow> observed env i \<noteq> None \<and> observed env i = before env i"

definition no_growth :: "scroll_env \<Rightarrow> nat \<Rightarrow> bool" where
  "no_growth env i \<longleftrightarrow>
     (case (observed env i, before env i) of (Some n, Some p) \<Rightarrow> n \<le> p | _ \<Rightarrow> False)"

text \<open>
  Pages for examples: one whose count goes down from 20 by one in each of the first ten
  passes and is 1000 afterwards, one whose count is always 5, one whose count grows by 10
  in each pass; and a scraper that runs.
\<close>

definition decreasing_env :: scroll_env where
  "decreasing_env =
     \<lparr>wait_selector = (Reply (), []),
      feed_count = (\<lambda>i. (Reply (if i < 10 then 20 - i else 1000), [])),
      scroll_polls = (\<lambda>i. []),
      scroll_feed = (\<lambda>i. (Reply (), [])),
      last_count = (Reply 1000, [])\<rparr>"

definition steady_env :: scroll_env where
  "steady_env =
     \<lparr>wait_selector = (Reply (), []),
      feed_count = (\<lambda>i. (Reply 5, [])),
      scroll_polls = (\<lambda>i. []),
      scroll_feed = (\<lambda>i. (Reply (), [])),
      last_count = (Reply 5, [])\<rparr>"

definition growing_env :: scroll_env where
  "growing_env =
     \<lparr>wait_selector = (Reply (), []),
      feed_count = (\<lambda>i. (Reply (10 * i), [])),
      scroll_polls = (\<lambda>i. []),
      scroll_feed = (\<lambda>i. (Reply (), [])),
      last_count = (Reply 30, [])\<rparr>"

definition running_scraper :: GoogleMapsScraper where
  "running_scraper = init_scraper\<lparr>is_running := True\<rparr>"

text \<open>
  The effects that are emitted events, and the others (calls to the page and sleeps) in
  the order they happen.
\<close>

definition is_emit :: "effect \<Rightarrow> bool" where
  "is_emit e = (case e of Emit ev \<Rightarrow> True | _ \<Rightarrow> False)"

definition calls :: "GoogleMapsScraper \<Rightarrow> effect list" where
  "calls st = filter (\<lambda>e. \<not> is_emit e) (effects st)"

text \<open>
  \<open>extends A st st'\<close>: from \<open>st\<close> to \<open>st'\<close> the results and the seen keys are the
  same, a session that is not running has not come to run, and what has been added to
  the effects are emitted events and effects in \<open>A\<close>.
\<close>

definition extends :: "(effect \<Rightarrow> bool) \<Rightarrow> GoogleMapsScraper \<Rightarrow> GoogleMapsScraper \<Rightarrow> bool" where
  "extends A st st' \<longleftrightarrow>
     results st' = results st \<and> seen_keys st' = seen_keys st
     \<and> (\<not> is_running st \<longrightarrow> \<not> is_running st')
     \<and> (\<exists>es. effects st' = effects st @ es \<and> list_all (\<lambda>e. is_emit e \<or> A e) es)"

text \<open>The state after one pass through a loop body.\<close>

fun pass_state :: "'a pass \<Rightarrow> 'a" where
  "pass_state (Continue s) = s"
| "pass_state (Leave out) = state_of out"

text \<open>The effects of loading the page, and those of the scroll loop.\<close>

definition nav_effect :: "string \<Rightarrow> effect \<Rightarrow> bool" where
  "nav_effect url e \<longleftrightarrow> e = Goto url \<or> e = Sleep 2000 \<or> e = Sleep 3000"

definition scroll_effect :: "effect \<Rightarrow> bool" where
  "scroll_effect e \<longleftrightarrow> e = Sleep 400 \<or> e = CountFeed \<or> e = ScrollFeed \<or> e = Sleep 1200"

text \<open>
  \<open>steps A m st st'\<close>: \<open>st'\<close> comes from \<open>st\<close> by steps each of which extends the
  state in the sense above or is \<^const>\<open>process_link_result\<close> on some extracted record.
\<close>

inductive steps :: "(effect \<Rightarrow> bool) \<Rightarrow> int \<Rightarrow> GoogleMapsScraper \<Rightarrow> GoogleMapsScraper \<Rightarrow> bool"
  for A :: "effect \<Rightarrow> bool" and m :: int where
  steps_refl: "steps A m st st"
| steps_frame: "steps A m st st1 \<Longrightarrow> extends A st1 st2 \<Longrightarrow> steps A m st st2"
| steps_accept: "steps A m st st1 \<Longrightarrow> steps A m st (process_link_result m d st1)"

text \<open>
  A page that fails to load at every attempt, an iteration with this page (no link
  found afterwards), and a URL, for examples.
\<close>

definition failing_page :: "nat \<Rightarrow> unit awaited" where
  "failing_page attempt = (Throws ''Timeout 60000ms exceeded'', [])"

definition failing_iter_env :: iter_env where
  "failing_iter_env =
     \<lparr>term_polls = [], page_goto = failing_page, scrolling = steady_env,
      extraction = \<lparr>links = (Reply 0, []), schedule = []\<rparr>\<rparr>"

definition example_url :: string where
  "example_url = ''https://www.google.com/maps/search/hotel+en+Cusco''"

text \<open>
  No two results have the same key, and the seen keys are the keys of the results.
\<close>

definition dedup_inv :: "GoogleMapsScraper \<Rightarrow> bool" where
  "dedup_inv st \<longleftrightarrow>
     distinct (map key_of (results st)) \<and> set (map key_of (results st)) = seen_keys st"

text \<open>No restriction on the effects.\<close>

definition any_effect :: "effect \<Rightarrow> bool" where
  "any_effect e \<longleftrightarrow> True"

text \<open>
  \<^verbatim>\<open>effective_limit\<close> and the state in which \<^verbatim>\<open>scrape\<close> begins (lines 121 to 129).
\<close>

definition effective_limit :: "int option \<Rightarrow> int" where
  "effective_limit cantidad =
     (case cantidad of None \<Rightarrow> 1000000 | Some c \<Rightarrow> if c \<noteq> 0 \<and> c > 0 then c else 1000000)"

definition session_start :: "GoogleMapsScraper \<Rightarrow> GoogleMapsScraper" where
  "session_start st = st\<lparr>is_running := True, is_paused := False, results := [], seen_keys := {}\<rparr>"

text \<open>
  A batch of two tasks that extract the same business, written differently; the second
  task ends first.
\<close>

definition duplicate_schedule :: "batch_event list" where
  "duplicate_schedule =
     [Begin 0, Begin 1, Acquire 0, Acquire 1,
      Finish 1 (Some (botica ''BOTICA  central '' ''av. principal 123  '')),
      Finish 0 (Some (botica ''Botica Central'' ''Av. Principal 123''))]"

text \<open>
  The tasks of a batch that are past their test of \<^verbatim>\<open>is_running\<close> (line 305) and have
  not ended: they wait for the semaphore or hold it. Then a batch in which \<^verbatim>\<open>stop\<close> is
  called while the first of two tasks holds the semaphore, and what the tasks do afterwards.
\<close>

definition flying :: "task_pc \<Rightarrow> bool" where
  "flying pc \<longleftrightarrow> pc = WaitingSem \<or> pc = InFlight"

definition in_flight :: "batch \<Rightarrow> nat" where
  "in_flight b = length (filter flying (tasks b))"

definition stop_schedule :: "batch_event list" where
  "stop_schedule = [Begin 0, Acquire 0, Call Stop]"

definition stopped_batch :: batch where
  "stopped_batch = run_batch 20 stop_schedule (new_batch running_scraper 2)"

definition late_schedule :: "batch_event list" where
  "late_schedule =
     [Begin 1, Finish 0 (Some (botica ''Botica Central'' ''Av. Principal 123'')),
      Acquire 1, Finish 1 (Some (botica ''Hotel Sol'' ''Jr. Lima 45''))]"

section \<open>Location terms\<close>

text \<open>
  Claim C4. For every region name and country name: if the region, stripped and
  lowercased, is \<open>lima\<close>, \<open>build_location_terms\<close> returns the list of 32 strings
  \<open>district, Lima, country\<close>, one for each district of the fixed list and in its order, so
  each ends in \<open>, Lima, country\<close>, and the list is the same for every spelling of the
  region; for every other region it returns the single string \<open>region, country\<close>.
\<close>

theorem build_location_terms_spec:
  "(py_lower (py_strip region) = ''lima'' \<longrightarrow>
      build_location_terms region pais
        = map (\<lambda>distrito. distrito @ '', Lima, '' @ pais) distritos_lima
      \<and> length (build_location_terms region pais) = 32
      \<and> (\<forall>t \<in> set (build_location_terms region pais). suffix ('', Lima, '' @ pais) t)
      \<and> (\<forall>region'. py_lower (py_strip region') = ''lima'' \<longrightarrow>
            build_location_terms region' pais = build_location_terms region pais))
   \<and> (py_lower (py_strip region) \<noteq> ''lima'' \<longrightarrow>
      build_location_terms region pais = [region @ '', '' @ pais])"
  by (auto simp: build_location_terms_def Let_def suffix_def) (simp add: distritos_lima_def)

theorem build_location_terms_spec_witness:
  "py_lower (py_strip '' LIMA '') = ''lima''
   \<and> length (build_location_terms '' LIMA '' default_pais) = 32
   \<and> list_all (suffix ('', Lima, '' @ default_pais))
         (build_location_terms '' LIMA '' default_pais)
   \<and> py_lower (py_strip ''Cusco'') \<noteq> ''lima''
   \<and> build_location_terms ''Cusco'' default_pais = [''Cusco'' @ '', '' @ default_pais]"
proof -
  have a: "py_lower (py_strip '' LIMA '') = ''lima''"
    by code_simp
  have b: "py_lower (py_strip ''Cusco'') \<noteq> ''lima''"
    by code_simp
  show ?thesis
    unfolding list_all_iff
    using a b build_location_terms_spec [of "'' LIMA ''" default_pais]
      build_location_terms_spec [of "''Cusco''" default_pais]
    by blast
qed

section \<open>The key of a business\<close>

subsection \<open>Characters and words\<close>


lemma of_char_lower:
  "(of_char (py_lower_char c) :: nat) =
     (if (65 \<le> (of_char c :: nat) \<and> (of_char c :: nat) \<le> 90)
         \<or> (192 \<le> (of_char c :: nat) \<and> (of_char c :: nat) \<le> 222 \<and> (of_char c :: nat) \<noteq> 215)
      then of_char c + 32 else of_char c)"
  by (auto simp: py_lower_char_def Let_def)

lemma is_space_lower [simp]: "is_space (py_lower_char c) = is_space c"
  unfolding is_space_def of_char_lower by auto

lemma py_lower_char_idem [simp]: "py_lower_char (py_lower_char c) = py_lower_char c"
proof -
  have "(of_char (py_lower_char (py_lower_char c)) :: nat) = of_char (py_lower_char c)"
    unfolding of_char_lower by auto
  then show ?thesis by (metis char_of_char)
qed

lemma py_lower_idem [simp]: "py_lower (py_lower s) = py_lower s"
  by (simp add: py_lower_def)

lemma split_ws_Nil [simp]: "split_ws [] = []"
  by (simp add: split_ws.simps)

lemma split_ws_dropWhile: "split_ws (dropWhile is_space s) = split_ws s"
  by (subst (1 2) split_ws.simps) simp

lemma split_ws_word:
  assumes "w \<noteq> []" "\<forall>c \<in> set w. \<not> is_space c" "r = [] \<or> is_space (hd r)"
  shows "split_ws (w @ r) = w # split_ws r"
proof -
  obtain c cs where w: "w = c # cs" using assms(1) by (cases w) auto
  have d: "dropWhile is_space (w @ r) = w @ r"
    using assms(2) w by simp
  have t: "takeWhile (\<lambda>x. \<not> is_space x) (w @ r) = w"
    using assms(2,3) by (cases r) (auto simp: takeWhile_append)
  have dd: "dropWhile (\<lambda>x. \<not> is_space x) (w @ r) = r"
    using assms(2,3) by (cases r) (auto simp: dropWhile_append)
  show ?thesis
    using d t dd w by (subst split_ws.simps) (simp split: list.splits)
qed

lemma re_sub_ws_word:
  "\<forall>c \<in> set w. \<not> is_space c \<Longrightarrow> re_sub_ws (w @ r) = w @ re_sub_ws r"
  by (induction w) auto

lemma strip_right_append_word:
  "w \<noteq> [] \<Longrightarrow> \<not> is_space (last w) \<Longrightarrow> strip_right (a @ w) = a @ w"
  by (cases w rule: rev_cases) (auto simp: strip_right_def)


lemma is_space_sp [simp]: "is_space (CHR '' '')"
  by (simp add: is_space_def)

lemma strip_right_append:
  "strip_right b \<noteq> [] \<Longrightarrow> strip_right (a @ b) = a @ strip_right b"
proof -
  assume "strip_right b \<noteq> []"
  then obtain x where "x \<in> set (rev b)" "\<not> is_space x"
    by (auto simp: strip_right_def dropWhile_eq_Nil_conv)
  then have "dropWhile is_space (rev b @ rev a) = dropWhile is_space (rev b) @ rev a"
    by (rule dropWhile_append1)
  then show ?thesis
    by (simp add: strip_right_def)
qed

lemma strip_right_spaces:
  "\<forall>c \<in> set b. is_space c \<Longrightarrow> strip_right (a @ b) = strip_right a"
proof -
  assume "\<forall>c \<in> set b. is_space c"
  then have "dropWhile is_space (rev b @ rev a) = dropWhile is_space (rev a)"
    by (intro dropWhile_append2) simp
  then show ?thesis
    by (simp add: strip_right_def)
qed

lemma strip_right_word:
  "w \<noteq> [] \<Longrightarrow> \<forall>c \<in> set w. \<not> is_space c \<Longrightarrow> strip_right w = w"
  by (cases w rule: rev_cases) (auto simp: strip_right_def)

lemma join_sp_Cons: "join_sp (w # ws) = (if ws = [] then w else w @ CHR '' '' # join_sp ws)"
  by (cases ws) auto

lemma join_sp_nonempty: "w \<noteq> [] \<Longrightarrow> join_sp (w # ws) \<noteq> []"
  by (simp add: join_sp_Cons)

lemma re_sub_ws_space:
  "is_space c \<Longrightarrow> re_sub_ws (c # cs) = CHR '' '' # re_sub_ws (dropWhile is_space cs)"
  by simp

lemma norm_words_aux:
  "t = [] \<or> \<not> is_space (hd t) \<Longrightarrow> strip_right (re_sub_ws t) = join_sp (split_ws t)"
proof (induction t rule: length_induct)
  case (1 t)
  show ?case
  proof (cases t)
    case Nil
    then show ?thesis by (simp add: strip_right_def)
  next
    case (Cons c cs)
    define w where "w = takeWhile (\<lambda>x. \<not> is_space x) t"
    define r where "r = dropWhile (\<lambda>x. \<not> is_space x) t"
    have t: "t = w @ r" by (simp add: w_def r_def)
    have wne: "w \<noteq> []" using "1.prems" Cons by (simp add: w_def)
    have wns: "\<forall>c \<in> set w. \<not> is_space c" by (auto simp: w_def dest: set_takeWhileD)
    have r0: "r = [] \<or> is_space (hd r)"
      using hd_dropWhile [of "\<lambda>x. \<not> is_space x" t] by (auto simp: r_def)
    have rs: "re_sub_ws t = w @ re_sub_ws r"
      by (subst t) (rule re_sub_ws_word [OF wns])
    have sw: "split_ws t = w # split_ws r"
      by (subst t) (rule split_ws_word [OF wne wns r0])
    show ?thesis
    proof (cases r)
      case Nil
      then show ?thesis using rs sw wne wns by (simp add: strip_right_word)
    next
      case r: (Cons d ds)
      then have d: "is_space d" using r0 by simp
      define t' where "t' = dropWhile is_space ds"
      have rr: "re_sub_ws r = CHR '' '' # re_sub_ws t'"
        using d r by (simp add: t'_def)
      have t'0: "t' = [] \<or> \<not> is_space (hd t')"
        using hd_dropWhile [of is_space ds] by (auto simp: t'_def)
      have "length t' \<le> length ds" by (simp add: t'_def length_dropWhile_le)
      then have len: "length t' < length t"
        using t r wne by simp
      have IH: "strip_right (re_sub_ws t') = join_sp (split_ws t')"
        using "1.IH" len t'0 by blast
      have "dropWhile is_space r = t'" using d r by (simp add: t'_def)
      then have sr: "split_ws r = split_ws t'"
        using split_ws_dropWhile [of r] by simp
      show ?thesis
      proof (cases t')
        case Nil
        have "strip_right (w @ [CHR '' '']) = strip_right w"
          by (rule strip_right_spaces) simp
        then show ?thesis using Nil rs rr sw sr wne wns by (simp add: strip_right_word)
      next
        case t': (Cons e es)
        define w' where "w' = takeWhile (\<lambda>x. \<not> is_space x) t'"
        define r' where "r' = dropWhile (\<lambda>x. \<not> is_space x) t'"
        have e: "\<not> is_space e" using t'0 t' by simp
        have "t' = w' @ r'" by (simp add: w'_def r'_def)
        moreover have w'ne: "w' \<noteq> []" using e t' by (simp add: w'_def)
        moreover have "\<forall>c \<in> set w'. \<not> is_space c" by (auto simp: w'_def dest: set_takeWhileD)
        moreover have "r' = [] \<or> is_space (hd r')"
          using hd_dropWhile [of "\<lambda>x. \<not> is_space x" t'] by (auto simp: r'_def)
        ultimately have "split_ws t' = w' # split_ws r'"
          by (metis split_ws_word)
        then have ne: "split_ws t' \<noteq> []" and "join_sp (split_ws t') \<noteq> []"
          using w'ne by (simp_all add: join_sp_nonempty)
        then have "strip_right (re_sub_ws t') \<noteq> []" using IH by simp
        then have "strip_right (CHR '' '' # re_sub_ws t') = CHR '' '' # strip_right (re_sub_ws t')"
          using strip_right_append [of "re_sub_ws t'" "[CHR '' '']"] by simp
        then have "strip_right (CHR '' '' # re_sub_ws t') \<noteq> []" by simp
        then have "strip_right (w @ CHR '' '' # re_sub_ws t')
                     = w @ CHR '' '' # strip_right (re_sub_ws t')"
          using strip_right_append [of "CHR '' '' # re_sub_ws t'" w]
            \<open>strip_right (CHR '' '' # re_sub_ws t') = CHR '' '' # strip_right (re_sub_ws t')\<close>
          by simp
        then show ?thesis
          using rs rr sw sr ne IH by (simp add: join_sp_Cons)
      qed
    qed
  qed
qed

lemma re_sub_ws_hd:
  "t = [] \<or> \<not> is_space (hd t) \<Longrightarrow> re_sub_ws t = [] \<or> \<not> is_space (hd (re_sub_ws t))"
  by (cases t) auto

lemma dropWhile_re_sub_ws:
  "dropWhile is_space (re_sub_ws s) = re_sub_ws (dropWhile is_space s)"
proof (cases s)
  case Nil
  then show ?thesis by simp
next
  case (Cons c cs)
  show ?thesis
  proof (cases "is_space c")
    case True
    define t' where "t' = dropWhile is_space cs"
    have "t' = [] \<or> \<not> is_space (hd t')"
      using hd_dropWhile [of is_space cs] by (auto simp: t'_def)
    then have "re_sub_ws t' = [] \<or> \<not> is_space (hd (re_sub_ws t'))"
      by (rule re_sub_ws_hd)
    then have "dropWhile is_space (re_sub_ws t') = re_sub_ws t'"
      by (cases "re_sub_ws t'") auto
    then show ?thesis using True Cons by (simp add: t'_def)
  next
    case False
    then show ?thesis using Cons by simp
  qed
qed

lemma strip_collapse_words: "py_strip (re_sub_ws s) = join_sp (split_ws s)"
proof -
  have "py_strip (re_sub_ws s) = strip_right (re_sub_ws (dropWhile is_space s))"
    by (simp add: py_strip_def strip_right_def dropWhile_re_sub_ws)
  also have "\<dots> = join_sp (split_ws (dropWhile is_space s))"
    using hd_dropWhile [of is_space s] by (intro norm_words_aux) auto
  also have "\<dots> = join_sp (split_ws s)"
    by (simp add: split_ws_dropWhile)
  finally show ?thesis .
qed


lemma split_ws_good:
  "w \<in> set (split_ws s) \<Longrightarrow> w \<noteq> [] \<and> (\<forall>c \<in> set w. \<not> is_space c)"
proof (induction s rule: split_ws.induct)
  case (1 s)
  show ?case
  proof (cases "dropWhile is_space s")
    case Nil
    have "split_ws s = []"
      by (subst split_ws.simps) (simp only: Nil list.case)
    then show ?thesis using "1.prems" by simp
  next
    case (Cons c cs)
    have c: "\<not> is_space c"
      using Cons hd_dropWhile [of is_space s] by auto
    have "split_ws s = takeWhile (\<lambda>x. \<not> is_space x) (c # cs)
            # split_ws (dropWhile (\<lambda>x. \<not> is_space x) (c # cs))"
      by (subst split_ws.simps) (simp only: Cons list.case)
    with "1.prems"
    have "w = takeWhile (\<lambda>x. \<not> is_space x) (c # cs)
            \<or> w \<in> set (split_ws (dropWhile (\<lambda>x. \<not> is_space x) (c # cs)))"
      by auto
    then show ?thesis
    proof
      assume "w = takeWhile (\<lambda>x. \<not> is_space x) (c # cs)"
      then show ?thesis using c by (auto dest: set_takeWhileD)
    next
      assume "w \<in> set (split_ws (dropWhile (\<lambda>x. \<not> is_space x) (c # cs)))"
      then show ?thesis using "1.IH" Cons by blast
    qed
  qed
qed

lemma split_ws_space: "is_space c \<Longrightarrow> split_ws (c # s) = split_ws s"
  using split_ws_dropWhile [of "c # s"] split_ws_dropWhile [of s] by simp

lemma split_ws_join:
  "\<forall>w \<in> set ws. w \<noteq> [] \<and> (\<forall>c \<in> set w. \<not> is_space c) \<Longrightarrow> split_ws (join_sp ws) = ws"
proof (induction ws rule: join_sp.induct)
  case 1
  then show ?case by simp
next
  case (2 w)
  then show ?case using split_ws_word [of w "[]"] by simp
next
  case (3 w v ws)
  have "split_ws (w @ CHR '' '' # join_sp (v # ws)) = w # split_ws (CHR '' '' # join_sp (v # ws))"
    using 3(2) by (intro split_ws_word) auto
  also have "\<dots> = w # split_ws (join_sp (v # ws))"
    by (simp add: split_ws_space)
  also have "\<dots> = w # v # ws"
    using 3 by simp
  finally show ?case by simp
qed

lemma set_re_sub_ws: "set (re_sub_ws s) \<subseteq> insert (CHR '' '') (set s)"
proof (induction s rule: re_sub_ws.induct)
  case 1
  then show ?case by simp
next
  case (2 c cs)
  then show ?case by (auto dest: set_dropWhileD)
qed

lemma set_py_strip: "set (py_strip s) \<subseteq> set s"
proof
  fix x
  assume "x \<in> set (py_strip s)"
  then have "x \<in> set (dropWhile is_space (rev (dropWhile is_space s)))"
    by (simp add: py_strip_def)
  then have "x \<in> set (rev (dropWhile is_space s))"
    by (rule set_dropWhileD)
  then have "x \<in> set (dropWhile is_space s)"
    by simp
  then show "x \<in> set s"
    by (rule set_dropWhileD)
qed

lemma py_lower_char_sp [simp]: "py_lower_char (CHR '' '') = CHR '' ''"
  by (simp add: py_lower_char_def)

lemma py_lower_norm: "py_lower (norm s) = norm s"
proof -
  have "set (norm s) \<subseteq> insert (CHR '' '') (set (py_lower s))"
    unfolding norm_def using set_py_strip set_re_sub_ws by blast
  then have "\<forall>c \<in> set (norm s). py_lower_char c = c"
    by (auto simp: py_lower_def)
  then show ?thesis
    by (simp add: py_lower_def map_idI)
qed

lemma norm_words: "norm s = join_sp (split_ws (py_lower s))"
  by (simp add: norm_def strip_collapse_words)

lemma norm_idem: "norm (norm s) = norm s"
proof -
  have "norm (norm s) = join_sp (split_ws (norm s))"
    by (subst norm_words) (simp only: py_lower_norm)
  also have "\<dots> = join_sp (split_ws (join_sp (split_ws (py_lower s))))"
    by (simp add: norm_words)
  also have "\<dots> = join_sp (split_ws (py_lower s))"
    using split_ws_good by (subst split_ws_join) blast+
  finally show ?thesis by (simp add: norm_words)
qed

text \<open>
  Claim C9. The normalisation of the key is idempotent: normalising a component that is
  already normalised changes nothing, so the key of the normalised name and address is
  the key of the name and address.
\<close>

theorem make_key_idempotent:
  "norm (norm s) = norm s \<and> make_key (norm nombre') (norm direccion') = make_key nombre' direccion'"
  by (simp add: make_key_def norm_idem)


subsection \<open>Keeping the first record of a key\<close>

lemma process_link_result_cases:
  "process_link_result m data st = st
   \<or> (\<exists>d. data = Some d \<and> nombre d \<noteq> [] \<and> key_of d \<notin> seen_keys st
          \<and> results (process_link_result m data st) = results st @ [d]
          \<and> seen_keys (process_link_result m data st) = insert (key_of d) (seen_keys st)
          \<and> is_running (process_link_result m data st) = is_running st
          \<and> is_paused (process_link_result m data st) = is_paused st)"
  by (auto simp: process_link_result_def key_of_def Let_def emit_progress_def perform_def
      split: option.splits)

lemma process_link_result_seen:
  "key_of d \<in> seen_keys st \<Longrightarrow> process_link_result m (Some d) st = st"
  by (simp add: process_link_result_def key_of_def Let_def)

lemma process_link_result_inserts:
  "nombre d \<noteq> [] \<Longrightarrow> key_of d \<in> seen_keys (process_link_result m (Some d) st)"
  by (simp add: process_link_result_def key_of_def Let_def emit_progress_def perform_def)

lemma process_link_result_grows:
  "seen_keys st \<subseteq> seen_keys (process_link_result m data st)
   \<and> prefix (results st) (results (process_link_result m data st))"
  using process_link_result_cases [of m data st] by auto

lemma fold_process_grows:
  "seen_keys st \<subseteq> seen_keys (fold (process_link_result m) ds st)
   \<and> prefix (results st) (results (fold (process_link_result m) ds st))"
proof (induction ds arbitrary: st)
  case Nil
  then show ?case by simp
next
  case (Cons d ds)
  have a: "seen_keys st \<subseteq> seen_keys (process_link_result m d st)"
    and b: "prefix (results st) (results (process_link_result m d st))"
    using process_link_result_grows [of st m d] by auto
  from Cons [of "process_link_result m d st"] a b show ?case
    by (auto intro: prefix_order.order_trans)
qed

text \<open>
  The key does not strip diacritics: \<^verbatim>\<open>_make_key\<close> does not call
  \<^verbatim>\<open>_normalize_text\<close>, so the key of a name with U+00E9 differs from the key the
  specification describes, and from the key of the same name written without the accent.
\<close>

theorem make_key_diacritics_counterexample:
  "make_key (''Caf'' @ [CHR 0xE9]) ''Lima'' \<noteq> spec_dedup_key (''Caf'' @ [CHR 0xE9]) ''Lima''
   \<and> make_key (''Caf'' @ [CHR 0xE9]) ''Lima'' \<noteq> make_key ''Cafe'' ''Lima''"
  by code_simp

text \<open>
  Claim C2, amended. For every name and address the key is the pair of the two strings,
  each lowercased, with every run of whitespace replaced by a single space and with the
  whitespace at both ends removed (the words of the lowercased string joined by single
  spaces); diacritics are kept. Two records with equal keys are the same business: once
  a named record has been processed, a later record with the same key is discarded,
  whatever was processed in between, and if the first one was inserted it is still in
  \<^verbatim>\<open>results\<close>.
\<close>

theorem make_key_spec:
  "make_key name address
     = (join_sp (split_ws (py_lower name)), join_sp (split_ws (py_lower address)))
   \<and> (nombre d1 \<noteq> [] \<and> key_of d2 = key_of d1 \<longrightarrow>
        process_link_result m (Some d2)
            (fold (process_link_result m) mid (process_link_result m (Some d1) st))
          = fold (process_link_result m) mid (process_link_result m (Some d1) st)
        \<and> (key_of d1 \<notin> seen_keys st \<longrightarrow>
             d1 \<in> set (results (fold (process_link_result m) mid
                                    (process_link_result m (Some d1) st)))))"
proof -
  let ?st1 = "process_link_result m (Some d1) st"
  let ?st2 = "fold (process_link_result m) mid ?st1"
  have k: "make_key name address
     = (join_sp (split_ws (py_lower name)), join_sp (split_ws (py_lower address)))"
    by (simp add: make_key_def norm_words)
  have "process_link_result m (Some d2) ?st2 = ?st2
        \<and> (key_of d1 \<notin> seen_keys st \<longrightarrow> d1 \<in> set (results ?st2))"
    if n: "nombre d1 \<noteq> []" and e: "key_of d2 = key_of d1"
  proof
    have "key_of d1 \<in> seen_keys ?st1"
      using n by (rule process_link_result_inserts)
    then have "key_of d2 \<in> seen_keys ?st2"
      using e fold_process_grows [of ?st1 m mid] by auto
    then show "process_link_result m (Some d2) ?st2 = ?st2"
      by (rule process_link_result_seen)
    show "key_of d1 \<notin> seen_keys st \<longrightarrow> d1 \<in> set (results ?st2)"
    proof
      assume "key_of d1 \<notin> seen_keys st"
      then have "results ?st1 = results st @ [d1]"
        using n by (simp add: process_link_result_def key_of_def Let_def emit_progress_def
            perform_def)
      then have "d1 \<in> set (results ?st1)" by simp
      moreover have "prefix (results ?st1) (results ?st2)"
        using fold_process_grows [of ?st1 m mid] by simp
      ultimately show "d1 \<in> set (results ?st2)"
        by (auto dest: set_mono_prefix)
    qed
  qed
  with k show ?thesis by blast
qed

theorem make_key_spec_witness:
  "nombre (botica ''Botica Central'' ''Av. Principal 123'') \<noteq> []
   \<and> key_of (botica ''BOTICA  central '' ''av. principal 123  '')
       = key_of (botica ''Botica Central'' ''Av. Principal 123'')
   \<and> key_of (botica ''Botica Central'' ''Av. Principal 123'') \<notin> seen_keys init_scraper
   \<and> results (process_link_result 20 (Some (botica ''BOTICA  central '' ''av. principal 123  ''))
        (fold (process_link_result 20) []
           (process_link_result 20 (Some (botica ''Botica Central'' ''Av. Principal 123''))
              init_scraper)))
       = [botica ''Botica Central'' ''Av. Principal 123'']"
proof -
  have a: "nombre (botica ''Botica Central'' ''Av. Principal 123'') \<noteq> []"
    by (simp add: botica_def)
  have b: "key_of (botica ''BOTICA  central '' ''av. principal 123  '')
       = key_of (botica ''Botica Central'' ''Av. Principal 123'')"
    by code_simp
  have c: "key_of (botica ''Botica Central'' ''Av. Principal 123'') \<notin> seen_keys init_scraper"
    by (simp add: init_scraper_def)
  have d: "results (process_link_result 20 (Some (botica ''Botica Central'' ''Av. Principal 123''))
              init_scraper) = [botica ''Botica Central'' ''Av. Principal 123'']"
    by (simp add: process_link_result_def Let_def init_scraper_def emit_progress_def
        perform_def botica_def)
  show ?thesis
    using a b c d
      make_key_spec [of "''x''" "''y''" "botica ''Botica Central'' ''Av. Principal 123''"
        "botica ''BOTICA  central '' ''av. principal 123  ''" 20 "[]" init_scraper]
    by simp
qed

section \<open>The commands\<close>

text \<open>
  Claim C10. When no session has been created (the global \<^verbatim>\<open>scraper\<close> is
  \<^verbatim>\<open>None\<close>), the queries do not fail: \<^verbatim>\<open>get_status\<close> answers not running, not
  paused and zero results, and \<^verbatim>\<open>get_results\<close> answers the empty list; whereas
  \<^verbatim>\<open>pause_scraper\<close>, \<^verbatim>\<open>resume_scraper\<close> and \<^verbatim>\<open>stop_scraper\<close> are rejected in that
  state and leave it as it is.
\<close>

theorem queries_without_session:
  "get_status (g\<lparr>scraper := None\<rparr>)
     = \<lparr>reply_is_running = False, reply_is_paused = False, results_count = 0\<rparr>
   \<and> get_results (g\<lparr>scraper := None\<rparr>) = []
   \<and> pause_scraper (g\<lparr>scraper := None\<rparr>)
       = (Inl (HTTPException 400 ''No active scraper to pause''), g\<lparr>scraper := None\<rparr>)
   \<and> resume_scraper (g\<lparr>scraper := None\<rparr>)
       = (Inl (HTTPException 400 ''No active scraper to resume''), g\<lparr>scraper := None\<rparr>)
   \<and> stop_scraper (g\<lparr>scraper := None\<rparr>)
       = (Inl (HTTPException 400 ''No active scraper to stop''), g\<lparr>scraper := None\<rparr>)"
  by (simp add: get_status_def get_results_def pause_scraper_def resume_scraper_def
      stop_scraper_def)




section \<open>Search terms\<close>


lemma unique_loop_dedup:
  "unique_loop xs acc seen
     = acc @ dedup_by_norm (filter (\<lambda>x. normalize_text x \<notin> seen) xs)"
proof (induction xs arbitrary: acc seen)
  case Nil
  then show ?case by simp
next
  case (Cons x xs)
  have f: "filter (\<lambda>y. normalize_text y \<notin> insert (normalize_text x) seen) xs
         = filter (\<lambda>y. normalize_text y \<noteq> normalize_text x)
             (filter (\<lambda>y. normalize_text y \<notin> seen) xs)"
    by (induction xs) auto
  show ?case
    using Cons [of "acc @ [x]" "insert (normalize_text x) seen"] Cons [of acc seen] f
    by (simp add: Let_def)
qed

lemma expand_loop_find:
  "expand_loop items rubro =
     (case find (term_matches rubro) items of
        None \<Rightarrow> [rubro]
      | Some item \<Rightarrow> take 3 (dedup_by_norm (py_strip rubro # snd item)))"
  by (induction items) (auto simp: unique_loop_dedup)

lemma normalize_text_map: "normalize_text s = map normalize_char s"
  by (simp add: normalize_text_def normalize_char_def replacements_def py_replace_char_def
      py_lower_def)

lemma is_space_normalize_char: "is_space (normalize_char c) = is_space c"
proof -
  have r: "\<And>t old new. (old, new) \<in> set replacements \<Longrightarrow> \<not> is_space old \<and> \<not> is_space new"
    by (auto simp: replacements_def is_space_def)
  have "is_space (foldl (\<lambda>t (old, new). if t = old then new else t) d rs) = is_space d"
    if "set rs \<subseteq> set replacements" for d rs
    using that
  proof (induction rs arbitrary: d)
    case Nil
    then show ?case by simp
  next
    case (Cons p rs)
    obtain old new where p: "p = (old, new)" by (cases p)
    with Cons.prems have "\<not> is_space old \<and> \<not> is_space new" using r by auto
    then show ?case using Cons p by auto
  qed
  then show ?thesis
    by (simp add: normalize_char_def is_space_lower)
qed


lemma py_strip_id:
  assumes "s = [] \<or> (\<not> is_space (hd s) \<and> \<not> is_space (last s))"
  shows "py_strip s = s"
proof (cases s rule: rev_cases)
  case Nil
  then show ?thesis by (simp add: py_strip_def)
next
  case (snoc xs x)
  with assms have h: "\<not> is_space (hd s)" and l: "\<not> is_space x" by auto
  have "s \<noteq> []" using snoc by simp
  then have d: "dropWhile is_space s = s" using h by (cases s) auto
  have "dropWhile is_space (rev s) = rev s" using l snoc by simp
  then show ?thesis using d by (simp add: py_strip_def)
qed

lemma py_strip_normalized_ends:
  assumes "normalize_text rubro = x" "x \<noteq> []" "\<not> is_space (hd x)" "\<not> is_space (last x)"
  shows "py_strip rubro = rubro"
proof -
  from assms(1,2) have ne: "rubro \<noteq> []" by (auto simp: normalize_text_map)
  then have "hd x = normalize_char (hd rubro)" "last x = normalize_char (last rubro)"
    using assms(1) by (auto simp: normalize_text_map hd_map last_map)
  then have "\<not> is_space (hd rubro) \<and> \<not> is_space (last rubro)"
    using assms(3,4) by (simp add: is_space_normalize_char)
  then show ?thesis by (intro py_strip_id) simp
qed

lemma py_strip_no_space:
  assumes "\<forall>c \<in> set rubro. \<not> is_space c"
  shows "py_strip rubro = rubro"
proof (cases rubro)
  case Nil
  then show ?thesis by (simp add: py_strip_def)
next
  case (Cons c cs)
  then have "hd rubro \<in> set rubro" "last rubro \<in> set rubro" by auto
  then show ?thesis using assms by (intro py_strip_id) blast
qed

lemma sinonimos_shape:
  "list_all (\<lambda>item.
      list_all (\<lambda>c. \<not> is_space c) (normalize_text (fst item))
      \<and> normalize_text (fst item) \<noteq> []
      \<and> list_all (\<lambda>x. x \<noteq> [] \<and> \<not> is_space (hd x) \<and> \<not> is_space (last x))
            (map normalize_text (snd item))) sinonimos"
  by code_simp

lemma term_matches_strip:
  assumes "item \<in> set sinonimos" "term_matches rubro item"
  shows "py_strip rubro = rubro"
proof -
  from sinonimos_shape assms(1)
  have k: "\<forall>c \<in> set (normalize_text (fst item)). \<not> is_space c"
    and kn: "normalize_text (fst item) \<noteq> []"
    and sy: "\<forall>x \<in> set (map normalize_text (snd item)).
               x \<noteq> [] \<and> \<not> is_space (hd x) \<and> \<not> is_space (last x)"
    by (auto simp: list_all_iff)
  from assms(2) consider
      (key) "normalize_text rubro = normalize_text (fst item)"
    | (syn) "normalize_text rubro \<in> set (map normalize_text (snd item))"
    | (sub) "sublist (normalize_text rubro) (normalize_text (fst item))"
    by (auto simp: term_matches_def Let_def)
  then show ?thesis
  proof cases
    case key
    then have "\<forall>c \<in> set (normalize_text rubro). \<not> is_space c" using k by simp
    then have "\<forall>c \<in> set rubro. \<not> is_space c"
      by (simp add: normalize_text_map is_space_normalize_char)
    then show ?thesis by (rule py_strip_no_space)
  next
    case syn
    with sy have "normalize_text rubro \<noteq> [] \<and> \<not> is_space (hd (normalize_text rubro))
                  \<and> \<not> is_space (last (normalize_text rubro))"
      by blast
    then show ?thesis using py_strip_normalized_ends [OF refl] by blast
  next
    case sub
    then have "set (normalize_text rubro) \<subseteq> set (normalize_text (fst item))"
      by (rule set_mono_sublist)
    then have "\<forall>c \<in> set (normalize_text rubro). \<not> is_space c" using k by blast
    then have "\<forall>c \<in> set rubro. \<not> is_space c"
      by (simp add: normalize_text_map is_space_normalize_char)
    then show ?thesis by (rule py_strip_no_space)
  qed
qed

lemma dedup_by_norm_distinct: "distinct (map normalize_text (dedup_by_norm xs))"
proof (induction xs rule: dedup_by_norm.induct)
  case 1
  then show ?case by simp
next
  case (2 x xs)
  have "set (dedup_by_norm ys) \<subseteq> set ys" for ys
    by (induction ys rule: dedup_by_norm.induct) auto
  then have "normalize_text x \<notin> normalize_text ` set (dedup_by_norm
      (filter (\<lambda>y. normalize_text y \<noteq> normalize_text x) xs))"
    by fastforce
  with 2 show ?case by simp
qed

text \<open>
  Claim C3. For every category: if some item of the table matches it (its normalised
  form equals the normalised key, equals one of the normalised synonyms, or is a part
  of the normalised key), \<open>expand_search_term\<close> returns, for the first such item of
  the table, the category followed by the synonyms of the item, deduplicated by
  normalised form and cut to three terms, the category first; if no item matches, it
  returns the category alone. The result is never empty, has at most three terms, and
  no two of them have the same normalised form. For \<open>restaurante\<close> it is
  \<open>restaurante\<close>, \<open>restaurant\<close>, \<open>comida\<close>.
\<close>

theorem expand_search_term_spec:
  "(find (term_matches rubro) sinonimos = Some item \<longrightarrow>
      expand_search_term rubro = take 3 (dedup_by_norm (rubro # snd item))
      \<and> hd (expand_search_term rubro) = rubro)
   \<and> (find (term_matches rubro) sinonimos = None \<longrightarrow> expand_search_term rubro = [rubro])
   \<and> expand_search_term rubro \<noteq> []
   \<and> length (expand_search_term rubro) \<le> 3
   \<and> distinct (map normalize_text (expand_search_term rubro))
   \<and> expand_search_term ''restaurante'' = [''restaurante'', ''restaurant'', ''comida'']"
proof -
  have a: "expand_search_term rubro = take 3 (dedup_by_norm (rubro # snd it))"
    if "find (term_matches rubro) sinonimos = Some it" for it
  proof -
    from that have "it \<in> set sinonimos" "term_matches rubro it"
      by (auto simp: find_Some_iff)
    then have "py_strip rubro = rubro" by (rule term_matches_strip)
    with that show ?thesis by (simp add: expand_search_term_def expand_loop_find)
  qed
  have b: "expand_search_term rubro = [rubro]"
    if "find (term_matches rubro) sinonimos = None"
    using that by (simp add: expand_search_term_def expand_loop_find)
  have c: "expand_search_term rubro = [rubro]
           \<or> (\<exists>item :: string \<times> string list.
                 expand_search_term rubro = take 3 (dedup_by_norm (rubro # snd item)))"
    using a b by (cases "find (term_matches rubro) sinonimos") auto
  have d: "distinct (map normalize_text (take 3 (dedup_by_norm ys)))" for ys
    using dedup_by_norm_distinct [of ys] by (simp add: distinct_take take_map [symmetric])
  have e: "expand_search_term ''restaurante'' = [''restaurante'', ''restaurant'', ''comida'']"
    by code_simp
  have f: "expand_search_term rubro \<noteq> [] \<and> length (expand_search_term rubro) \<le> 3
           \<and> distinct (map normalize_text (expand_search_term rubro))"
    using c
  proof
    assume "expand_search_term rubro = [rubro]"
    then show ?thesis by simp
  next
    assume "\<exists>item :: string \<times> string list.
              expand_search_term rubro = take 3 (dedup_by_norm (rubro # snd item))"
    then obtain it :: "string \<times> string list" where
      it: "expand_search_term rubro = take 3 (dedup_by_norm (rubro # snd it))" by blast
    have "take 3 (dedup_by_norm (rubro # snd it)) \<noteq> []" by simp
    moreover have "length (take 3 (dedup_by_norm (rubro # snd it))) \<le> 3" by simp
    ultimately show ?thesis using it d [of "rubro # snd it"] by (simp only:) simp
  qed
  have g: "hd (expand_search_term rubro) = rubro"
    if "find (term_matches rubro) sinonimos = Some it" for it
    using a [OF that] by simp
  from a b e f g show ?thesis by blast
qed


theorem expand_search_term_spec_witness:
  "find (term_matches ''MINA'') sinonimos = Some (sinonimos ! 2)
   \<and> expand_search_term ''MINA'' = take 3 (dedup_by_norm (''MINA'' # snd (sinonimos ! 2)))
   \<and> hd (expand_search_term ''MINA'') = ''MINA''
   \<and> find (term_matches ''rest'') sinonimos = Some (sinonimos ! 0)
   \<and> expand_search_term ''rest'' = take 3 (dedup_by_norm (''rest'' # snd (sinonimos ! 0)))
   \<and> find (term_matches ''zapatos'') sinonimos = None
   \<and> expand_search_term ''zapatos'' = [''zapatos'']"
proof -
  have a: "find (term_matches ''MINA'') sinonimos = Some (sinonimos ! 2)"
    by code_simp
  have b: "find (term_matches ''rest'') sinonimos = Some (sinonimos ! 0)"
    by code_simp
  have c: "find (term_matches ''zapatos'') sinonimos = None"
    by code_simp
  show ?thesis
    using a b c
      expand_search_term_spec [of "''MINA''" "sinonimos ! 2"]
      expand_search_term_spec [of "''rest''" "sinonimos ! 0"]
      expand_search_term_spec [of "''zapatos''" "sinonimos ! 0"]
    by blast
qed

section \<open>Scrolling\<close>

lemma done_count_perform [simp]:
  "done_count x (perform e st) = done_count x st + (if e = x then 1 else 0)"
  by (simp add: done_count_def perform_def)

lemma done_count_emit [simp]: "quiet x \<Longrightarrow> done_count x (emit_progress ev st) = done_count x st"
  by (auto simp: emit_progress_def quiet_def)

lemma done_count_control [simp]: "quiet x \<Longrightarrow> done_count x (control c st) = done_count x st"
  by (cases c) (simp_all add: pause_def resume_def stop_def, simp_all add: done_count_def emit_progress_def perform_def quiet_def)

lemma done_count_await [simp]: "quiet x \<Longrightarrow> done_count x (await_point cs st) = done_count x st"
  unfolding await_point_def by (induction cs arbitrary: st) simp_all

lemma done_count_wait [simp]:
  "quiet x \<Longrightarrow> done_count x (state_of (wait_if_paused polls st)) = done_count x st"
  by (induction polls arbitrary: st) (auto simp: quiet_def)

lemma wait_never_raises: "wait_if_paused polls st \<noteq> Raised e s"
  by (induction polls arbitrary: st) auto

lemma wait_blocked: "wait_if_paused polls st = Blocked s \<Longrightarrow> is_paused s \<and> is_running s"
  by (induction polls arbitrary: st) (auto split: if_splits)

lemma wait_returned_count:
  "quiet x \<Longrightarrow> wait_if_paused polls st = Returned st1 \<Longrightarrow> done_count x st1 = done_count x st"
  using done_count_wait [of x polls st] by simp

lemma wait_blocked_count:
  "quiet x \<Longrightarrow> wait_if_paused polls st = Blocked st1 \<Longrightarrow> done_count x st1 = done_count x st"
  using done_count_wait [of x polls st] by simp

lemma quiet_ScrollFeed [simp]: "quiet ScrollFeed"
  by (simp add: quiet_def)

lemma wait_raised_False: "wait_if_paused polls st = Raised e s \<Longrightarrow> False"
  using wait_never_raises by blast

lemma scroll_body_Leave:
  assumes "scroll_body env m v st = Leave out"
  shows "fst (state_of out) = v"
    and "done_count ScrollFeed (snd (state_of out)) \<le> done_count ScrollFeed st + 1"
    and "out = Blocked (v', s) \<Longrightarrow> is_paused s \<and> is_running s"
  using assms
  by (auto simp: scroll_body_def Let_def wait_returned_count wait_blocked_count
      dest: wait_blocked wait_raised_False
      split: prod.splits reply.splits outcome.splits if_splits)

lemma scroll_body_target:
  assumes "observed env (scroll_count v) = Some n" "m \<le> int n"
  shows "\<exists>out. scroll_body env m v st = Leave out
           \<and> done_count ScrollFeed (snd (state_of out)) = done_count ScrollFeed st"
  using assms
  by (auto simp: scroll_body_def observed_def Let_def wait_returned_count wait_blocked_count
      dest: wait_raised_False
      split: prod.splits reply.splits outcome.splits if_splits)

lemma scroll_body_Continue_facts:
  assumes "scroll_body env m v st = Continue (v', st')"
  shows "scroll_count v' = scroll_count v + 1"
    and "done_count ScrollFeed st' = done_count ScrollFeed st + 1"
    and "observed env (scroll_count v) = Some (previous v')"
    and "no_change_count v'
           = (if previous v' = previous v then no_change_count v + 1 else 0)"
  using assms
  by (auto simp: scroll_body_def observed_def Let_def wait_returned_count
      split: prod.splits reply.splits outcome.splits if_splits)

declare scroll_loop.simps [simp del]

lemma scroll_loop_exit:
  "\<not> (scroll_count v < max_scrolls \<and> no_change_count v < max_no_change \<and> is_running st) \<Longrightarrow>
     scroll_loop env m v st = Returned (v, st)"
  by (subst scroll_loop.simps) (simp only: if_False)

lemma scroll_loop_Leave:
  "scroll_count v < max_scrolls \<and> no_change_count v < max_no_change \<and> is_running st \<Longrightarrow>
   scroll_body env m v st = Leave out \<Longrightarrow> scroll_loop env m v st = out"
  by (subst scroll_loop.simps) simp

lemma scroll_loop_Continue:
  "scroll_count v < max_scrolls \<and> no_change_count v < max_no_change \<and> is_running st \<Longrightarrow>
   scroll_body env m v st = Continue (v', st') \<Longrightarrow>
     scroll_loop env m v st = scroll_loop env m v' st'"
  by (subst scroll_loop.simps) simp

lemma scroll_loop_cap:
  "scroll_count v \<le> max_scrolls \<Longrightarrow>
     done_count ScrollFeed (snd (state_of (scroll_loop env m v st))) + scroll_count v
       \<le> done_count ScrollFeed st + max_scrolls"
proof (induction env m v st rule: scroll_loop.induct)
  case (1 env m v st)
  show ?case
  proof (cases "scroll_count v < max_scrolls \<and> no_change_count v < max_no_change \<and> is_running st")
    case False
    then show ?thesis using "1.prems" by (simp add: scroll_loop_exit)
  next
    case True
    show ?thesis
    proof (cases "scroll_body env m v st")
      case (Leave out)
      then show ?thesis
        using True scroll_body_Leave(2) [OF Leave]
        by (simp add: scroll_loop_Leave [OF True Leave])
    next
      case (Continue p)
      obtain v' st' where p: "p = (v', st')" by (cases p)
      note c = Continue [unfolded p]
      have "done_count ScrollFeed (snd (state_of (scroll_loop env m v' st'))) + scroll_count v'
              \<le> done_count ScrollFeed st' + max_scrolls"
        using "1.IH" [OF True c refl] True scroll_body_Continue_facts(1) [OF c] by simp
      then show ?thesis
        using scroll_body_Continue_facts(1,2) [OF c]
        by (simp add: scroll_loop_Continue [OF True c])
    qed
  qed
qed

lemma scroll_loop_target:
  "observed env i = Some n \<Longrightarrow> m \<le> int n \<Longrightarrow> scroll_count v \<le> i \<Longrightarrow>
     done_count ScrollFeed (snd (state_of (scroll_loop env m v st))) + scroll_count v
       \<le> done_count ScrollFeed st + i"
proof (induction env m v st rule: scroll_loop.induct)
  case (1 env m v st)
  show ?case
  proof (cases "scroll_count v < max_scrolls \<and> no_change_count v < max_no_change \<and> is_running st")
    case False
    then show ?thesis using "1.prems" by (simp add: scroll_loop_exit)
  next
    case True
    show ?thesis
    proof (cases "scroll_count v = i")
      case at: True
      obtain out where "scroll_body env m v st = Leave out"
        "done_count ScrollFeed (snd (state_of out)) = done_count ScrollFeed st"
        using scroll_body_target [of env v n m st] "1.prems"(1,2) at by auto
      then show ?thesis using at by (simp add: scroll_loop_Leave [OF True])
    next
      case False
      with "1.prems" have lt: "scroll_count v < i" by simp
      show ?thesis
      proof (cases "scroll_body env m v st")
        case (Leave out)
        then show ?thesis
          using True lt scroll_body_Leave(2) [OF Leave]
          by (simp add: scroll_loop_Leave [OF True Leave])
      next
        case (Continue p)
        obtain v' st' where p: "p = (v', st')" by (cases p)
        note c = Continue [unfolded p]
        have "done_count ScrollFeed (snd (state_of (scroll_loop env m v' st'))) + scroll_count v'
                \<le> done_count ScrollFeed st' + i"
          using "1.IH" [OF True c refl "1.prems"(1,2)] lt scroll_body_Continue_facts(1) [OF c]
          by simp
        then show ?thesis
          using scroll_body_Continue_facts(1,2) [OF c]
          by (simp add: scroll_loop_Continue [OF True c])
      qed
    qed
  qed
qed

lemma scroll_loop_streak:
  "(\<forall>t < k. observed env (scroll_count v + t) = Some (previous v)) \<Longrightarrow>
   max_no_change \<le> no_change_count v + k \<Longrightarrow>
     done_count ScrollFeed (snd (state_of (scroll_loop env m v st)))
       \<le> done_count ScrollFeed st + k"
proof (induction k arbitrary: v st)
  case 0
  then show ?case by (simp add: scroll_loop_exit)
next
  case (Suc k)
  show ?case
  proof (cases "scroll_count v < max_scrolls \<and> no_change_count v < max_no_change \<and> is_running st")
    case False
    then show ?thesis by (simp add: scroll_loop_exit)
  next
    case True
    show ?thesis
    proof (cases "scroll_body env m v st")
      case (Leave out)
      then show ?thesis
        using True scroll_body_Leave(2) [OF Leave]
        by (simp add: scroll_loop_Leave [OF True Leave])
    next
      case (Continue p)
      obtain v' st' where p: "p = (v', st')" by (cases p)
      note c = Continue [unfolded p]
      note f = scroll_body_Continue_facts [OF c]
      from Suc.prems(1) have "observed env (scroll_count v) = Some (previous v)"
        by (metis add.right_neutral zero_less_Suc)
      with f(3) have same: "previous v' = previous v" by simp
      have "\<forall>t < k. observed env (scroll_count v' + t) = Some (previous v')"
      proof (intro allI impI)
        fix t assume "t < k"
        then have "observed env (scroll_count v + Suc t) = Some (previous v)"
          using Suc.prems(1) by (metis Suc_less_eq)
        then show "observed env (scroll_count v' + t) = Some (previous v')"
          using f(1) same by simp
      qed
      moreover have "max_no_change \<le> no_change_count v' + k"
        using Suc.prems(2) f(4) same by simp
      ultimately have "done_count ScrollFeed (snd (state_of (scroll_loop env m v' st')))
                         \<le> done_count ScrollFeed st' + k"
        by (rule Suc.IH)
      then show ?thesis
        using f(2) by (simp add: scroll_loop_Continue [OF True c])
    qed
  qed
qed

lemma unchanged_run:
  assumes "\<forall>i. j \<le> i \<and> i < j + 8 \<longrightarrow> unchanged env i" "before env j = Some p" "t < 8"
  shows "observed env (j + t) = Some p"
  using assms(3)
proof (induction t)
  case 0
  then show ?case using assms(1,2) by (auto simp: unchanged_def)
next
  case (Suc t)
  then have "observed env (j + t) = Some p" by simp
  moreover have "unchanged env (j + Suc t)" using assms(1) Suc.prems by simp
  ultimately show ?case by (simp add: unchanged_def before_def)
qed

lemma scroll_loop_unchanged:
  "before env (scroll_count v) = Some (previous v) \<Longrightarrow> scroll_count v \<le> j \<Longrightarrow>
   (\<forall>i. j \<le> i \<and> i < j + 8 \<longrightarrow> unchanged env i) \<Longrightarrow>
     done_count ScrollFeed (snd (state_of (scroll_loop env m v st))) + scroll_count v
       \<le> done_count ScrollFeed st + j + 8"
proof (induction env m v st rule: scroll_loop.induct)
  case (1 env m v st)
  show ?case
  proof (cases "scroll_count v = j")
    case at: True
    have "\<forall>t < 8. observed env (scroll_count v + t) = Some (previous v)"
      using unchanged_run [OF "1.prems"(3)] "1.prems"(1) at by simp
    then have "done_count ScrollFeed (snd (state_of (scroll_loop env m v st)))
                 \<le> done_count ScrollFeed st + 8"
      by (rule scroll_loop_streak) (simp add: max_no_change_def)
    then show ?thesis using at by simp
  next
    case False
    with "1.prems" have lt: "scroll_count v < j" by simp
    show ?thesis
    proof (cases "scroll_count v < max_scrolls \<and> no_change_count v < max_no_change \<and> is_running st")
      case False
      then show ?thesis using lt by (simp add: scroll_loop_exit)
    next
      case True
      show ?thesis
      proof (cases "scroll_body env m v st")
        case (Leave out)
        then show ?thesis
          using True lt scroll_body_Leave(2) [OF Leave]
          by (simp add: scroll_loop_Leave [OF True Leave])
      next
        case (Continue p)
        obtain v' st' where p: "p = (v', st')" by (cases p)
        note c = Continue [unfolded p]
        note f = scroll_body_Continue_facts [OF c]
        have "before env (scroll_count v') = Some (previous v')"
          using f(1,3) by (simp add: before_def)
        moreover have "scroll_count v' \<le> j" using f(1) lt by simp
        ultimately have
          "done_count ScrollFeed (snd (state_of (scroll_loop env m v' st'))) + scroll_count v'
             \<le> done_count ScrollFeed st' + j + 8"
          using "1.IH" [OF True c refl] "1.prems"(3) by blast
        then show ?thesis
          using f(1,2) by (simp add: scroll_loop_Continue [OF True c])
      qed
    qed
  qed
qed

lemma scroll_loop_blocked:
  "scroll_loop env m v st = Blocked (v', s) \<Longrightarrow> is_paused s \<and> is_running s"
proof (induction env m v st rule: scroll_loop.induct)
  case (1 env m v st)
  show ?case
  proof (cases "scroll_count v < max_scrolls \<and> no_change_count v < max_no_change \<and> is_running st")
    case False
    then show ?thesis using "1.prems" by (simp add: scroll_loop_exit)
  next
    case True
    show ?thesis
    proof (cases "scroll_body env m v st")
      case (Leave out)
      then have "out = Blocked (v', s)"
        using "1.prems" by (simp add: scroll_loop_Leave [OF True])
      then show ?thesis by (rule scroll_body_Leave(3) [OF Leave])
    next
      case (Continue p)
      obtain v'' st' where p: "p = (v'', st')" by (cases p)
      note c = Continue [unfolded p]
      have "scroll_loop env m v'' st' = Blocked (v', s)"
        using "1.prems" by (simp add: scroll_loop_Continue [OF True c])
      then show ?thesis using "1.IH" [OF True c refl] by simp
    qed
  qed
qed

lemma scroll_extensive_count:
  "done_count ScrollFeed (state_of (scroll_extensive env m st)) = done_count ScrollFeed st
   \<or> (\<exists>st0. done_count ScrollFeed st0 = done_count ScrollFeed st
          \<and> done_count ScrollFeed (state_of (scroll_extensive env m st))
              = done_count ScrollFeed (snd (state_of (scroll_loop env m
                  \<lparr>previous = 0, no_change_count = 0, scroll_count = 0\<rparr> st0))))"
proof (cases "wait_selector env")
  case (Pair r cs)
  show ?thesis
  proof (cases r)
    case (Throws e)
    then show ?thesis using Pair by (simp add: scroll_extensive_def)
  next
    case (Reply u)
    let ?st0 = "await_point cs
                  (perform WaitForSelector (emit_progress (Log LoadingResults Info) st))"
    have "done_count ScrollFeed ?st0 = done_count ScrollFeed st" by simp
    moreover have "done_count ScrollFeed (state_of (scroll_extensive env m st))
        = done_count ScrollFeed (snd (state_of (scroll_loop env m
            \<lparr>previous = 0, no_change_count = 0, scroll_count = 0\<rparr> ?st0)))"
      using Pair Reply
      by (cases "scroll_loop env m \<lparr>previous = 0, no_change_count = 0, scroll_count = 0\<rparr> ?st0")
         (auto simp: scroll_extensive_def Let_def split: prod.splits reply.splits)
    ultimately show ?thesis by blast
  qed
qed

lemma scroll_extensive_outcome:
  "scroll_extensive env m st \<noteq> Raised e s
   \<and> (scroll_extensive env m st = Blocked s \<longrightarrow> is_paused s \<and> is_running s)"
  by (auto simp: scroll_extensive_def Let_def dest: scroll_loop_blocked
      split: prod.splits reply.splits outcome.splits)






section \<open>Frames: what the stages leave unchanged\<close>

lemma extends_refl [simp]: "extends A st st"
  by (simp add: extends_def)

lemma extends_trans: "extends A st st1 \<Longrightarrow> extends A st1 st2 \<Longrightarrow> extends A st st2"
  by (auto simp: extends_def)

lemma extends_mono: "extends A st st' \<Longrightarrow> (\<And>e. A e \<Longrightarrow> B e) \<Longrightarrow> extends B st st'"
  unfolding extends_def list_all_iff by blast

lemma extends_perform: "extends A st st1 \<Longrightarrow> is_emit e \<or> A e \<Longrightarrow> extends A st (perform e st1)"
  by (auto simp: extends_def perform_def)

lemma extends_emit: "extends A st st1 \<Longrightarrow> extends A st (emit_progress ev st1)"
  by (simp add: emit_progress_def extends_perform is_emit_def)

lemma extends_control: "extends A st st1 \<Longrightarrow> extends A st (control c st1)"
  by (cases c)
     (auto simp: pause_def resume_def stop_def extends_def emit_progress_def perform_def
       is_emit_def)

lemma extends_await: "extends A st st1 \<Longrightarrow> extends A st (await_point cs st1)"
  unfolding await_point_def
  by (induction cs arbitrary: st1) (simp_all add: extends_control)

lemma extends_wait:
  "A (Sleep 400) \<Longrightarrow> extends A st st1 \<Longrightarrow> extends A st (state_of (wait_if_paused polls st1))"
proof (induction polls arbitrary: st1)
  case Nil
  then show ?case by simp
next
  case (Cons p polls)
  have "extends A st (await_point p (perform (Sleep 400) st1))"
    by (intro extends_await extends_perform Cons.prems) (simp add: Cons.prems)
  then show ?case
    using Cons.IH [OF Cons.prems(1)] Cons.prems(2) by simp
qed

lemmas extends_intros = extends_emit extends_await extends_perform extends_control

lemma extends_done_count:
  "extends A st st' \<Longrightarrow> \<not> is_emit x \<Longrightarrow> \<not> A x \<Longrightarrow> done_count x st' = done_count x st"
  by (auto simp: extends_def done_count_def list_all_iff count_list_0_iff)

lemma nav_effect_simps [simp]:
  "nav_effect url (Goto url)" "nav_effect url (Sleep 2000)" "nav_effect url (Sleep 3000)"
  by (simp_all add: nav_effect_def)

declare goto_retry.simps [simp del]

lemma extends_goto_retry:
  "extends (nav_effect url) st0 st \<Longrightarrow>
     extends (nav_effect url) st0 (goto_retry page url attempt st)"
proof (induction page url attempt st rule: goto_retry.induct)
  case (1 page url attempt st)
  let ?A = "nav_effect url"
  let ?st1 = "perform (Goto url) (emit_progress (Log (LoadingPage attempt) Info) st)"
  have s1: "extends ?A st0 ?st1"
    by (intro extends_intros "1.prems") simp_all
  show ?case
  proof (cases "attempt < retry_count + 1")
    case False
    then show ?thesis using "1.prems" by (simp add: goto_retry.simps [of page url attempt st])
  next
    case True
    obtain r cs where p: "page attempt = (r, cs)" by (cases "page attempt")
    show ?thesis
    proof (cases r)
      case (Reply u)
      have "extends ?A st0
              (emit_progress (Log PageLoaded Success) (await_point cs (perform (Sleep 3000) ?st1)))"
        by (intro extends_intros "1.prems") simp_all
      then show ?thesis
        using True p Reply
        by (simp add: goto_retry.simps [of page url attempt st] Let_def)
    next
      case (Throws e)
      show ?thesis
      proof (cases "attempt < retry_count")
        case lt: True
        let ?st2 = "await_point cs (perform (Sleep 2000) ?st1)"
        have "extends ?A st0 ?st2"
          by (intro extends_intros "1.prems") simp_all
        then have "extends ?A st0 (goto_retry page url (attempt + 1) ?st2)"
          using "1.IH"(1) [OF True refl p [symmetric] Throws lt] by simp
        then show ?thesis
          using True p Throws lt
          by (simp add: goto_retry.simps [of page url attempt st] Let_def)
      next
        case ge: False
        let ?st2 = "emit_progress (Log (PageLoadError e) Error) (await_point cs ?st1)"
        have "extends ?A st0 ?st2"
          by (intro extends_intros "1.prems") simp_all
        then have "extends ?A st0 (goto_retry page url (attempt + 1) ?st2)"
          using "1.IH"(2) [OF True refl p [symmetric] Throws ge] by simp
        then show ?thesis
          using True p Throws ge
          by (simp add: goto_retry.simps [of page url attempt st] Let_def)
      qed
    qed
  qed
qed

lemma calls_perform [simp]: "calls (perform e st) = calls st @ (if is_emit e then [] else [e])"
  by (simp add: calls_def perform_def)

lemma calls_emit [simp]: "calls (emit_progress ev st) = calls st"
  by (simp add: emit_progress_def is_emit_def)

lemma calls_control [simp]: "calls (control c st) = calls st"
  by (cases c) (simp_all add: pause_def resume_def stop_def, simp_all add: calls_def)

lemma calls_await [simp]: "calls (await_point cs st) = calls st"
  unfolding await_point_def by (induction cs arbitrary: st) simp_all

lemma is_emit_simps [simp]:
  "is_emit (Emit ev)" "\<not> is_emit (Goto u)" "\<not> is_emit (Sleep n)" "\<not> is_emit WaitForSelector"
  "\<not> is_emit CountFeed" "\<not> is_emit ScrollFeed" "\<not> is_emit LocateLinks"
  "\<not> is_emit LaunchBrowser" "\<not> is_emit CloseBrowser"
  by (simp_all add: is_emit_def)

lemma effects_emit_mono: "e \<in> set (effects st) \<Longrightarrow> e \<in> set (effects (emit_progress ev st))"
  by (simp add: emit_progress_def perform_def)

lemma goto_retry_calls:
  "calls (goto_retry page url 1 st) = calls st @
     (case fst (page 1) of
        Reply u \<Rightarrow> [Goto url, Sleep 3000]
      | Throws e1 \<Rightarrow>
          (case fst (page 2) of
             Reply u \<Rightarrow> [Goto url, Sleep 2000, Goto url, Sleep 3000]
           | Throws e2 \<Rightarrow>
               (case fst (page 3) of
                  Reply u \<Rightarrow> [Goto url, Sleep 2000, Goto url, Sleep 2000, Goto url, Sleep 3000]
                | Throws e3 \<Rightarrow> [Goto url, Sleep 2000, Goto url, Sleep 2000, Goto url])))"
  by (auto simp: goto_retry.simps retry_count_def Let_def eval_nat_numeral
      split: prod.splits reply.splits)

lemma goto_retry_error_logged:
  "fst (page 1) = Throws e1 \<Longrightarrow> fst (page 2) = Throws e2 \<Longrightarrow> fst (page 3) = Throws e3 \<Longrightarrow>
     last (effects (goto_retry page url 1 st)) = Emit (Log (PageLoadError e3) Error)"
  by (auto simp: goto_retry.simps retry_count_def Let_def emit_progress_def perform_def
      eval_nat_numeral split: prod.splits reply.splits)

lemma goto_retry_flags:
  "\<forall>a. snd (page a) = [] \<Longrightarrow>
     is_running (goto_retry page url attempt st) = is_running st
     \<and> is_paused (goto_retry page url attempt st) = is_paused st"
proof (induction page url attempt st rule: goto_retry.induct)
  case (1 page url attempt st)
  show ?case
  proof (cases "attempt < retry_count + 1")
    case False
    then show ?thesis by (simp add: goto_retry.simps [of page url attempt st])
  next
    case True
    obtain r cs where p: "page attempt = (r, cs)" by (cases "page attempt")
    with "1.prems" have cs: "cs = []" by (metis snd_conv)
    show ?thesis
    proof (cases r)
      case (Reply u)
      then show ?thesis
        using True p cs
        by (simp add: goto_retry.simps [of page url attempt st] Let_def await_point_def
            emit_progress_def perform_def)
    next
      case (Throws e)
      show ?thesis
      proof (cases "attempt < retry_count")
        case lt: True
        show ?thesis
          using "1.IH"(1) [OF True refl p [symmetric] Throws lt "1.prems"] True p Throws lt cs
          by (simp add: goto_retry.simps [of page url attempt st] Let_def await_point_def
              emit_progress_def perform_def)
      next
        case ge: False
        show ?thesis
          using "1.IH"(2) [OF True refl p [symmetric] Throws ge "1.prems"] True p Throws ge cs
          by (simp add: goto_retry.simps [of page url attempt st] Let_def await_point_def
              emit_progress_def perform_def)
      qed
    qed
  qed
qed

lemma scroll_effect_simps [simp]:
  "scroll_effect (Sleep 400)" "scroll_effect CountFeed" "scroll_effect ScrollFeed"
  "scroll_effect (Sleep 1200)" "\<not> scroll_effect WaitForSelector" "\<not> scroll_effect LocateLinks"
  "\<not> scroll_effect (Goto u)"
  by (simp_all add: scroll_effect_def)

lemma extends_wait_Returned:
  "A (Sleep 400) \<Longrightarrow> extends A st st1 \<Longrightarrow> wait_if_paused polls st1 = Returned st2 \<Longrightarrow>
     extends A st st2"
  using extends_wait [of A st st1 polls] by simp

lemma extends_wait_Blocked:
  "A (Sleep 400) \<Longrightarrow> extends A st st1 \<Longrightarrow> wait_if_paused polls st1 = Blocked st2 \<Longrightarrow>
     extends A st st2"
  using extends_wait [of A st st1 polls] by simp

lemma extends_scroll_body:
  assumes "extends scroll_effect st0 st"
  shows "extends scroll_effect st0 (snd (pass_state (scroll_body env m v st)))"
proof -
  obtain r cs where f: "feed_count env (scroll_count v) = (r, cs)"
    by (cases "feed_count env (scroll_count v)")
  let ?st1 = "await_point cs (perform CountFeed st)"
  have e1: "extends scroll_effect st0 ?st1"
    by (intro extends_intros assms) simp
  show ?thesis
  proof (cases r)
    case (Throws e)
    then show ?thesis using f e1 by (simp add: scroll_body_def)
  next
    case (Reply current)
    show ?thesis
    proof (cases "wait_if_paused (scroll_polls env (scroll_count v)) ?st1")
      case (Raised e s)
      then show ?thesis using wait_never_raises by blast
    next
      case (Blocked s)
      have "extends scroll_effect st0 s"
        by (rule extends_wait_Blocked [OF _ e1 Blocked]) simp
      then show ?thesis using f Reply Blocked by (simp add: scroll_body_def)
    next
      case (Returned st2)
      have e2: "extends scroll_effect st0 st2"
        by (rule extends_wait_Returned [OF _ e1 Returned]) simp
      show ?thesis
      proof (cases "m \<le> int current")
        case True
        have "extends scroll_effect st0 (emit_progress (Log (EnoughLoaded current) Success) st2)"
          by (intro extends_intros e2)
        then show ?thesis using f Reply Returned True by (simp add: scroll_body_def)
      next
        case False
        obtain r2 cs2 where g: "scroll_feed env (scroll_count v) = (r2, cs2)"
          by (cases "scroll_feed env (scroll_count v)")
        have e3: "extends scroll_effect st0 (await_point cs2 (perform ScrollFeed st2))"
          by (intro extends_intros e2) simp
        have e4: "extends scroll_effect st0
                    (await_point cs2 (perform (Sleep 1200) (perform ScrollFeed st2)))"
          by (intro extends_intros e2) simp_all
        have e5: "extends scroll_effect st0
                    (emit_progress (Log (LoadedSoFar current) Info)
                       (await_point cs2 (perform (Sleep 1200) (perform ScrollFeed st2))))"
          by (intro extends_intros e2) simp_all
        show ?thesis
          using f Reply Returned False g e3 e4 e5
          by (cases r2) (simp_all add: scroll_body_def Let_def)
      qed
    qed
  qed
qed

lemma extends_scroll_loop:
  "extends scroll_effect st0 st \<Longrightarrow>
     extends scroll_effect st0 (snd (state_of (scroll_loop env m v st)))"
proof (induction env m v st rule: scroll_loop.induct)
  case (1 env m v st)
  show ?case
  proof (cases "scroll_count v < max_scrolls \<and> no_change_count v < max_no_change \<and> is_running st")
    case False
    then show ?thesis using "1.prems" by (simp add: scroll_loop_exit)
  next
    case True
    have b: "extends scroll_effect st0 (snd (pass_state (scroll_body env m v st)))"
      using "1.prems" by (rule extends_scroll_body)
    show ?thesis
    proof (cases "scroll_body env m v st")
      case (Leave out)
      then show ?thesis using b by (simp add: scroll_loop_Leave [OF True Leave])
    next
      case (Continue p)
      obtain v' st' where p: "p = (v', st')" by (cases p)
      note c = Continue [unfolded p]
      have "extends scroll_effect st0 st'" using b c by simp
      then show ?thesis
        using "1.IH" [OF True c refl] by (simp add: scroll_loop_Continue [OF True c])
    qed
  qed
qed

lemma scroll_extensive_after_selector:
  "extends scroll_effect (perform WaitForSelector (emit_progress (Log LoadingResults Info) st))
     (state_of (scroll_extensive env m st))"
proof -
  obtain r cs where w: "wait_selector env = (r, cs)" by (cases "wait_selector env")
  let ?s0 = "perform WaitForSelector (emit_progress (Log LoadingResults Info) st)"
  let ?st1 = "await_point cs ?s0"
  let ?v0 = "\<lparr>previous = 0, no_change_count = 0, scroll_count = 0\<rparr>"
  have e1: "extends scroll_effect ?s0 ?st1"
    by (intro extends_intros extends_refl)
  show ?thesis
  proof (cases r)
    case (Throws e)
    have "extends scroll_effect ?s0 (emit_progress (Log (ScrollError e) Error) ?st1)"
      by (intro extends_intros extends_refl)
    then show ?thesis using w Throws by (simp add: scroll_extensive_def)
  next
    case (Reply u)
    have e2: "extends scroll_effect ?s0 (snd (state_of (scroll_loop env m ?v0 ?st1)))"
      using e1 by (rule extends_scroll_loop)
    obtain r2 cs2 where l: "last_count env = (r2, cs2)" by (cases "last_count env")
    show ?thesis
    proof (cases "scroll_loop env m ?v0 ?st1")
      case (Blocked p)
      obtain v1 s1 where p: "p = (v1, s1)" by (cases p)
      have "extends scroll_effect ?s0 s1" using e2 Blocked p by simp
      then show ?thesis using w Reply Blocked p by (simp add: scroll_extensive_def)
    next
      case (Raised e p)
      obtain v1 s1 where p: "p = (v1, s1)" by (cases p)
      have "extends scroll_effect ?s0 s1" using e2 Raised p by simp
      then have "extends scroll_effect ?s0 (emit_progress (Log (ScrollError e) Error) s1)"
        by (rule extends_emit)
      then show ?thesis using w Reply Raised p by (simp add: scroll_extensive_def)
    next
      case (Returned p)
      obtain v1 s1 where p: "p = (v1, s1)" by (cases p)
      have s1: "extends scroll_effect ?s0 s1" using e2 Returned p by simp
      have "extends scroll_effect ?s0
              (emit_progress ev (await_point cs2 (perform CountFeed s1)))" for ev
        by (intro extends_intros s1) simp
      then show ?thesis
        using w Reply Returned p l
        by (cases r2) (simp_all add: scroll_extensive_def)
    qed
  qed
qed

lemma extends_scroll_extensive:
  assumes "extends A st0 st" "\<And>e. scroll_effect e \<Longrightarrow> A e" "A WaitForSelector"
  shows "extends A st0 (state_of (scroll_extensive env m st))"
proof -
  let ?s0 = "perform WaitForSelector (emit_progress (Log LoadingResults Info) st)"
  have "extends A st0 ?s0"
    by (intro extends_intros assms(1)) (simp add: assms(3))
  moreover have "extends A ?s0 (state_of (scroll_extensive env m st))"
    using scroll_extensive_after_selector assms(2) by (rule extends_mono)
  ultimately show ?thesis by (rule extends_trans)
qed

lemma scroll_waits_once:
  "done_count WaitForSelector (state_of (scroll_extensive env m st))
     = done_count WaitForSelector st + 1"
  using extends_done_count [OF scroll_extensive_after_selector [of st env m], of WaitForSelector]
  by (simp add: quiet_def)

lemma steps_perform: "steps A m st0 st \<Longrightarrow> is_emit e \<or> A e \<Longrightarrow> steps A m st0 (perform e st)"
  by (erule steps_frame) (rule extends_perform, simp_all)

lemma steps_emit: "steps A m st0 st \<Longrightarrow> steps A m st0 (emit_progress ev st)"
  by (erule steps_frame) (rule extends_emit, simp)

lemma steps_control: "steps A m st0 st \<Longrightarrow> steps A m st0 (control c st)"
  by (erule steps_frame) (rule extends_control, simp)

lemma steps_await: "steps A m st0 st \<Longrightarrow> steps A m st0 (await_point cs st)"
  by (erule steps_frame) (rule extends_await, simp)

lemmas steps_intros = steps_emit steps_await steps_perform steps_control steps_accept

lemma steps_extends: "steps A m st0 st \<Longrightarrow> extends A st st' \<Longrightarrow> steps A m st0 st'"
  by (rule steps_frame)

lemma steps_mono:
  "steps A m st st' \<Longrightarrow> (\<And>e. A e \<Longrightarrow> B e) \<Longrightarrow> steps B m st st'"
proof (induction rule: steps.induct)
  case (steps_refl st)
  show ?case by (rule steps.steps_refl)
next
  case (steps_frame st st1 st2)
  from steps_frame.hyps(2) steps_frame.prems have "extends B st1 st2" by (rule extends_mono)
  with steps_frame.IH [OF steps_frame.prems] show ?case by (rule steps.steps_frame)
next
  case (steps_accept st st1 d)
  from steps_accept.IH [OF steps_accept.prems] show ?case by (rule steps.steps_accept)
qed

lemma steps_stopped: "steps A m st st' \<Longrightarrow> \<not> is_running st \<Longrightarrow> \<not> is_running st'"
proof (induction rule: steps.induct)
  case (steps_refl st)
  then show ?case by simp
next
  case (steps_frame st st1 st2)
  then show ?case by (simp add: extends_def)
next
  case (steps_accept st st1 d)
  then show ?case using process_link_result_cases [of m d st1] by auto
qed

lemma steps_results: "steps A m st st' \<Longrightarrow> prefix (results st) (results st')"
proof (induction rule: steps.induct)
  case (steps_refl st)
  then show ?case by simp
next
  case (steps_frame st st1 st2)
  then show ?case by (simp add: extends_def)
next
  case (steps_accept st st1 d)
  then show ?case
    using process_link_result_grows [of st1 m d] by (auto intro: prefix_order.order_trans)
qed

lemma process_done_count:
  "\<not> is_emit x \<Longrightarrow> done_count x (process_link_result m d st) = done_count x st"
  by (auto simp: process_link_result_def Let_def done_count_def emit_progress_def perform_def
      is_emit_def split: option.splits effect.splits)

lemma steps_done_count:
  "steps A m st st' \<Longrightarrow> \<not> is_emit x \<Longrightarrow> \<not> A x \<Longrightarrow> done_count x st' = done_count x st"
proof (induction rule: steps.induct)
  case (steps_refl st)
  then show ?case by simp
next
  case (steps_frame st st1 st2)
  then show ?case using extends_done_count [of A st1 st2 x] by simp
next
  case (steps_accept st st1 d)
  then show ?case by (simp add: process_done_count)
qed

lemma steps_batch_step:
  "steps A m st0 (obj b) \<Longrightarrow> steps A m st0 (obj (batch_step m ev b))"
  by (cases ev) (auto intro: steps_intros)

lemma steps_run_batch:
  "steps A m st0 (obj b) \<Longrightarrow> steps A m st0 (obj (run_batch m evs b))"
  unfolding run_batch_def
  by (induction evs arbitrary: b) (simp_all add: steps_batch_step)

lemma steps_extract:
  assumes "steps A m st0 st" "A LocateLinks"
  shows "steps A m st0 (state_of (extract_business_data env m st))"
proof -
  obtain r cs where l: "links env = (r, cs)" by (cases "links env")
  let ?st1 = "await_point cs (perform LocateLinks (emit_progress (Log ExtractingData Info) st))"
  have s1: "steps A m st0 ?st1"
    by (intro steps_intros assms(1)) (simp add: assms(2))
  show ?thesis
  proof (cases r)
    case (Throws e)
    then show ?thesis using l s1 by (simp add: extract_business_data_def)
  next
    case (Reply n)
    show ?thesis
    proof (cases "m - int (length (results ?st1)) \<le> 0")
      case True
      then show ?thesis using l Reply s1 by (simp add: extract_business_data_def Let_def)
    next
      case False
      let ?n = "nat (min (int n) (m - int (length (results ?st1))))"
      let ?st2 = "emit_progress (Log (Processing ?n) Info) ?st1"
      let ?b = "run_batch m (schedule env) (new_batch ?st2 ?n)"
      have "steps A m st0 (obj (new_batch ?st2 ?n))"
        using s1 by (simp add: new_batch_def steps_emit)
      then have b: "steps A m st0 (obj ?b)"
        by (rule steps_run_batch)
      then have "steps A m st0
                   (emit_progress (Log (BatchDone (length (results (obj ?b)))) Success) (obj ?b))"
        by (rule steps_emit)
      then show ?thesis
        using l Reply False b by (simp add: extract_business_data_def Let_def)
    qed
  qed
qed

lemma extract_locates:
  "done_count LocateLinks (state_of (extract_business_data env m st))
     = done_count LocateLinks st + 1"
proof -
  obtain r cs where l: "links env = (r, cs)" by (cases "links env")
  let ?st1 = "await_point cs (perform LocateLinks (emit_progress (Log ExtractingData Info) st))"
  have c1: "done_count LocateLinks ?st1 = done_count LocateLinks st + 1"
    by (simp add: quiet_def)
  show ?thesis
  proof (cases r)
    case (Throws e)
    then show ?thesis using l c1 by (simp add: extract_business_data_def)
  next
    case (Reply n)
    show ?thesis
    proof (cases "m - int (length (results ?st1)) \<le> 0")
      case True
      then show ?thesis using l Reply c1 by (simp add: extract_business_data_def Let_def)
    next
      case False
      let ?n = "nat (min (int n) (m - int (length (results ?st1))))"
      let ?st2 = "emit_progress (Log (Processing ?n) Info) ?st1"
      let ?b = "run_batch m (schedule env) (new_batch ?st2 ?n)"
      have "steps (\<lambda>e. False) m ?st2 (obj (new_batch ?st2 ?n))"
        by (simp add: new_batch_def steps_refl)
      then have "steps (\<lambda>e. False) m ?st2 (obj ?b)"
        by (rule steps_run_batch)
      then have "done_count LocateLinks (obj ?b) = done_count LocateLinks ?st2"
        by (rule steps_done_count) simp_all
      then have "done_count LocateLinks
                   (emit_progress (Log (BatchDone (length (results (obj ?b)))) Success) (obj ?b))
                 = done_count LocateLinks st + 1"
        using c1 by (simp add: quiet_def)
      then show ?thesis
        using l Reply False c1 by (simp add: extract_business_data_def Let_def quiet_def)
    qed
  qed
qed

section \<open>Loading the page and going on\<close>

lemma done_count_calls: "\<not> is_emit x \<Longrightarrow> done_count x st = count_list (calls st) x"
proof -
  assume x: "\<not> is_emit x"
  have "count_list (filter (\<lambda>e. \<not> is_emit e) es) x = count_list es x" for es
    using x by (induction es) auto
  then show ?thesis by (simp add: done_count_def calls_def)
qed

lemma extract_raised:
  "extract_business_data env m st = Raised e s \<Longrightarrow> fst (links env) = Throws e"
  by (auto simp: extract_business_data_def Let_def split: prod.splits reply.splits if_splits)

lemma visit_facts:
  fixes env m announce search_term location st
  defines "r \<equiv> visit env m announce search_term location st"
  shows "wait_if_paused (term_polls env) st = Returned st1 \<Longrightarrow>
           done_count WaitForSelector (pass_state r) = done_count WaitForSelector st + 1"
    and "r = Continue s' \<Longrightarrow> done_count LocateLinks s' = done_count LocateLinks st + 1"
    and "r = Leave (Returned s') \<Longrightarrow> \<not> is_running s'"
    and "r = Leave (Raised e s') \<Longrightarrow> fst (links (extraction env)) = Throws e"
    and "r = Leave (Blocked s') \<Longrightarrow>
           (is_paused s' \<and> is_running s')
           \<or> (\<exists>st4. extract_business_data (extraction env) m st4 = Blocked s')"
proof -
  let ?A = "\<lambda>e. nav_effect (''https://www.google.com/maps/search/''
               @ py_replace_char (CHR '' '') (CHR ''+'') (search_term @ '' en '' @ location)) e
             \<or> e = Sleep 400"
  let ?w = "wait_if_paused (term_polls env) st"
  let ?url = "''https://www.google.com/maps/search/''
               @ py_replace_char (CHR '' '') (CHR ''+'') (search_term @ '' en '' @ location)"
  have not_raised: "?w \<noteq> Raised e s" for e s by (rule wait_never_raises)
  show "r = Leave (Blocked s') \<Longrightarrow>
           (is_paused s' \<and> is_running s')
           \<or> (\<exists>st4. extract_business_data (extraction env) m st4 = Blocked s')"
    unfolding r_def visit_def Let_def
    using scroll_extensive_outcome
    by (auto dest: wait_blocked split: outcome.splits option.splits if_splits)
  show "r = Leave (Raised e s') \<Longrightarrow> fst (links (extraction env)) = Throws e"
    unfolding r_def visit_def Let_def
    using scroll_extensive_outcome not_raised
    by (auto dest: extract_raised split: outcome.splits option.splits if_splits)
  show "r = Leave (Returned s') \<Longrightarrow> \<not> is_running s'"
    unfolding r_def visit_def Let_def
    by (auto split: outcome.splits option.splits if_splits)
  have pre: "extends ?A st (goto_retry (page_goto env) ?url 1
               (case announce of None \<Rightarrow> st1 | Some msg \<Rightarrow> emit_progress (Log msg Info) st1))"
    if "?w = Returned st1" for st1
  proof -
    have a: "extends ?A st st1"
      by (rule extends_wait_Returned [OF _ extends_refl that]) simp
    then have "extends ?A st
                 (case announce of None \<Rightarrow> st1 | Some msg \<Rightarrow> emit_progress (Log msg Info) st1)"
      by (cases announce) (simp_all add: extends_emit)
    moreover have "extends ?A x (goto_retry (page_goto env) ?url 1 x)" for x
      by (rule extends_mono [OF extends_goto_retry [OF extends_refl]]) simp
    ultimately show ?thesis by (rule extends_trans)
  qed
  show "done_count WaitForSelector (pass_state r) = done_count WaitForSelector st + 1"
    if w: "?w = Returned st1"
  proof -
    let ?st3 = "goto_retry (page_goto env) ?url 1
               (case announce of None \<Rightarrow> st1 | Some msg \<Rightarrow> emit_progress (Log msg Info) st1)"
    let ?sc = "scroll_extensive (scrolling env) m ?st3"
    have c3: "done_count WaitForSelector ?st3 = done_count WaitForSelector st"
      by (rule extends_done_count [OF pre [OF w]]) (simp_all add: nav_effect_def)
    then have c4: "done_count WaitForSelector (state_of ?sc) = done_count WaitForSelector st + 1"
      by (simp add: scroll_waits_once)
    have c5: "done_count WaitForSelector (state_of (extract_business_data (extraction env) m x))
                = done_count WaitForSelector x" for x
      by (rule steps_done_count [OF steps_extract [OF steps_refl, of "\<lambda>e. e = LocateLinks"]])
         simp_all
    show ?thesis
    proof (cases ?sc)
      case (Returned st4)
      show ?thesis
      proof (cases "is_running st4")
        case False
        then show ?thesis using w Returned c4 by (simp add: r_def visit_def Let_def)
      next
        case True
        then show ?thesis
          using w Returned c4 c5 [of st4]
          by (cases "extract_business_data (extraction env) m st4")
             (simp_all add: r_def visit_def Let_def)
      qed
    next
      case (Raised e s)
      then show ?thesis using w c4 by (simp add: r_def visit_def Let_def)
    next
      case (Blocked s)
      then show ?thesis using w c4 by (simp add: r_def visit_def Let_def)
    qed
  qed
  show "done_count LocateLinks s' = done_count LocateLinks st + 1" if c: "r = Continue s'"
  proof -
    from c obtain st1 where w: "?w = Returned st1"
      by (cases ?w) (simp_all add: r_def visit_def)
    let ?st3 = "goto_retry (page_goto env) ?url 1
               (case announce of None \<Rightarrow> st1 | Some msg \<Rightarrow> emit_progress (Log msg Info) st1)"
    let ?sc = "scroll_extensive (scrolling env) m ?st3"
    have c3: "done_count LocateLinks ?st3 = done_count LocateLinks st"
      by (rule extends_done_count [OF pre [OF w]]) (simp_all add: nav_effect_def)
    have "extends (\<lambda>e. scroll_effect e \<or> e = WaitForSelector) ?st3 (state_of ?sc)"
      by (rule extends_scroll_extensive) simp_all
    then have "done_count LocateLinks (state_of ?sc) = done_count LocateLinks ?st3"
      by (rule extends_done_count) simp_all
    with c3 have c4: "done_count LocateLinks (state_of ?sc) = done_count LocateLinks st"
      by simp
    from c w obtain st4 where sc: "?sc = Returned st4"
      by (cases ?sc) (simp_all add: r_def visit_def Let_def)
    from c w sc have run: "is_running st4"
      by (simp add: r_def visit_def Let_def split: if_splits)
    from c w sc run have "extract_business_data (extraction env) m st4 = Returned s'"
      by (cases "extract_business_data (extraction env) m st4")
         (simp_all add: r_def visit_def Let_def)
    then have "done_count LocateLinks s' = done_count LocateLinks st4 + 1"
      using extract_locates [of "extraction env" m st4] by simp
    then show ?thesis using c4 sc by simp
  qed
qed

lemma goto_retry_at_most: "done_count (Goto url) (goto_retry page url 1 st) \<le> done_count (Goto url) st + 3"
proof -
  have "count_list (calls (goto_retry page url 1 st)) (Goto url)
          \<le> count_list (calls st) (Goto url) + 3"
    unfolding goto_retry_calls by (simp split: reply.splits)
  then show ?thesis by (simp only: done_count_calls is_emit_simps not_False_eq_True)
qed



section \<open>No two results with the same key\<close>

lemma steps_wait:
  "A (Sleep 400) \<Longrightarrow> steps A m st0 st \<Longrightarrow> steps A m st0 (state_of (wait_if_paused polls st))"
  by (erule steps_frame) (rule extends_wait, simp_all)

lemma steps_goto_retry:
  assumes "steps A m st0 st" "\<And>e. nav_effect url e \<Longrightarrow> A e"
  shows "steps A m st0 (goto_retry page url attempt st)"
proof -
  have "extends (nav_effect url) st (goto_retry page url attempt st)"
    by (rule extends_goto_retry) simp
  then have "extends A st (goto_retry page url attempt st)"
    using assms(2) by (rule extends_mono)
  with assms(1) show ?thesis by (rule steps_frame)
qed

lemma steps_scroll_extensive:
  assumes "steps A m st0 st" "\<And>e. scroll_effect e \<Longrightarrow> A e" "A WaitForSelector"
  shows "steps A m st0 (state_of (scroll_extensive env mx st))"
proof -
  have "extends A st (state_of (scroll_extensive env mx st))"
    using assms(2,3) by (intro extends_scroll_extensive) simp_all
  with assms(1) show ?thesis by (rule steps_frame)
qed

lemma steps_visit:
  assumes "steps any_effect m st0 st"
  shows "steps any_effect m st0 (pass_state (visit env m announce search_term location st))"
proof -
  let ?w = "wait_if_paused (term_polls env) st"
  let ?url = "''https://www.google.com/maps/search/''
               @ py_replace_char (CHR '' '') (CHR ''+'') (search_term @ '' en '' @ location)"
  have w: "steps any_effect m st0 (state_of ?w)"
    using assms by (intro steps_wait) (simp_all add: any_effect_def)
  show ?thesis
  proof (cases ?w)
    case (Raised e s)
    then show ?thesis using w by (simp add: visit_def)
  next
    case (Blocked s)
    then show ?thesis using w by (simp add: visit_def)
  next
    case (Returned st1)
    let ?st2 = "case announce of None \<Rightarrow> st1 | Some msg \<Rightarrow> emit_progress (Log msg Info) st1"
    let ?st3 = "goto_retry (page_goto env) ?url 1 ?st2"
    let ?sc = "scroll_extensive (scrolling env) m ?st3"
    have "steps any_effect m st0 st1" using w Returned by simp
    then have "steps any_effect m st0 ?st2"
      by (cases announce) (simp_all add: steps_emit)
    then have "steps any_effect m st0 ?st3"
      by (rule steps_goto_retry) (simp add: any_effect_def)
    then have sc: "steps any_effect m st0 (state_of ?sc)"
      by (rule steps_scroll_extensive) (simp_all add: any_effect_def)
    show ?thesis
    proof (cases ?sc)
      case (Raised e s)
      then show ?thesis using sc Returned by (simp add: visit_def Let_def)
    next
      case (Blocked s)
      then show ?thesis using sc Returned by (simp add: visit_def Let_def)
    next
      case sc4: (Returned st4)
      show ?thesis
      proof (cases "is_running st4")
        case False
        then show ?thesis using sc sc4 Returned by (simp add: visit_def Let_def)
      next
        case True
        have "steps any_effect m st0 (state_of (extract_business_data (extraction env) m st4))"
          using sc sc4 by (intro steps_extract) (simp_all add: any_effect_def)
        then show ?thesis
          using sc4 Returned True
          by (cases "extract_business_data (extraction env) m st4")
             (simp_all add: visit_def Let_def)
      qed
    qed
  qed
qed

lemma steps_term_loop:
  "steps any_effect m st0 st \<Longrightarrow>
     steps any_effect m st0
       (state_of (term_loop env m n_terms n_locs loc_idx location term_idx terms st))"
proof (induction terms arbitrary: term_idx st)
  case Nil
  then show ?case by simp
next
  case (Cons t terms)
  let ?r = "visit (env term_idx) m
              (if n_terms > 1 \<or> n_locs > 1
               then Some (TermOfZone term_idx n_terms loc_idx n_locs t location) else None)
              t location st"
  have v: "steps any_effect m st0 (pass_state ?r)"
    using Cons.prems by (rule steps_visit)
  show ?case
  proof (cases "is_running st")
    case False
    then show ?thesis using Cons.prems by simp
  next
    case True
    show ?thesis
    proof (cases ?r)
      case (Leave out)
      then show ?thesis using v True by simp
    next
      case (Continue st')
      then have "steps any_effect m st0 st'" using v by simp
      then show ?thesis using Cons.IH [of st' "term_idx + 1"] Continue True by simp
    qed
  qed
qed

lemma steps_location_loop:
  "steps any_effect m st0 st \<Longrightarrow>
     steps any_effect m st0 (state_of (location_loop env m terms n_locs loc_idx locs st))"
proof (induction locs arbitrary: loc_idx st)
  case Nil
  then show ?case by simp
next
  case (Cons l locs)
  let ?r = "term_loop (env loc_idx) m (length terms) n_locs loc_idx l 1 terms st"
  have t: "steps any_effect m st0 (state_of ?r)"
    using Cons.prems by (rule steps_term_loop)
  show ?case
  proof (cases "is_running st")
    case False
    then show ?thesis using Cons.prems by simp
  next
    case True
    show ?thesis
    proof (cases ?r)
      case (Returned st')
      then have "steps any_effect m st0 st'" using t by simp
      then show ?thesis using Cons.IH [of st' "loc_idx + 1"] Returned True by simp
    next
      case (Raised e s)
      then show ?thesis using t True by simp
    next
      case (Blocked s)
      then show ?thesis using t True by simp
    qed
  qed
qed

lemma process_dedup:
  assumes "dedup_inv st"
  shows "dedup_inv (process_link_result m data st)"
  using process_link_result_cases [of m data st]
proof
  assume "process_link_result m data st = st"
  then show ?thesis using assms by simp
next
  assume "\<exists>d. data = Some d \<and> nombre d \<noteq> [] \<and> key_of d \<notin> seen_keys st
            \<and> results (process_link_result m data st) = results st @ [d]
            \<and> seen_keys (process_link_result m data st) = insert (key_of d) (seen_keys st)
            \<and> is_running (process_link_result m data st) = is_running st
            \<and> is_paused (process_link_result m data st) = is_paused st"
  then obtain d where new: "key_of d \<notin> seen_keys st"
    and r: "results (process_link_result m data st) = results st @ [d]"
    and k: "seen_keys (process_link_result m data st) = insert (key_of d) (seen_keys st)"
    by blast
  from assms have d: "distinct (map key_of (results st))"
    and s: "set (map key_of (results st)) = seen_keys st"
    by (simp_all add: dedup_inv_def)
  from new s have "key_of d \<notin> set (map key_of (results st))" by simp
  with d have "distinct (map key_of (results st @ [d]))" by simp
  moreover have "set (map key_of (results st @ [d])) = insert (key_of d) (seen_keys st)"
    using s by simp
  ultimately show ?thesis
    unfolding dedup_inv_def r k by simp
qed

lemma steps_dedup: "steps A m st st' \<Longrightarrow> dedup_inv st \<Longrightarrow> dedup_inv st'"
proof (induction rule: steps.induct)
  case (steps_refl st)
  then show ?case by simp
next
  case (steps_frame st st1 st2)
  then show ?case by (simp add: extends_def dedup_inv_def)
next
  case (steps_accept st st1 d)
  then show ?case by (simp add: process_dedup)
qed

lemma scrape_steps:
  "\<exists>st5. steps any_effect (effective_limit cantidad) (session_start st) st5
     \<and> (state_of (scrape env rubro depto pais cantidad expanded st) = st5
        \<or> state_of (scrape env rubro depto pais cantidad expanded st) = st5\<lparr>is_running := False\<rparr>)"
proof -
  let ?m = "effective_limit cantidad"
  let ?st0 = "session_start st"
  let ?terms = "if expanded then expand_search_term rubro else [rubro]"
  let ?locs = "build_location_terms depto pais"
  let ?st1 = "emit_progress (Log (SearchStarted rubro depto pais) Info) ?st0"
  let ?st2 = "if length ?terms > 1
              then emit_progress (Log (SmartSearch (take 3 ?terms)) Info) ?st1 else ?st1"
  let ?st3 = "perform LaunchBrowser ?st2"
  obtain r cs where b: "browser env = (r, cs)" by (cases "browser env")
  obtain r2 cs2 where c: "closing env = (r2, cs2)" by (cases "closing env")
  have "steps any_effect ?m ?st0 ?st2"
    by (auto intro: steps_emit steps_refl)
  then have s3: "steps any_effect ?m ?st0 (await_point cs ?st3)"
    by (intro steps_await steps_perform) (simp_all add: any_effect_def)
  let ?loop = "location_loop (visits env) ?m ?terms (length ?locs) 1 ?locs (await_point cs ?st3)"
  have sl: "steps any_effect ?m ?st0 (state_of ?loop)"
    using s3 by (rule steps_location_loop)
  have unfold: "scrape env rubro depto pais cantidad expanded st =
      (case r of
         Throws e \<Rightarrow> Raised e (await_point cs ?st3)
       | Reply u \<Rightarrow>
           (case ?loop of
              Raised e s \<Rightarrow> Raised e s
            | Blocked s \<Rightarrow> Blocked s
            | Returned st4 \<Rightarrow>
                (case r2 of
                   Throws e \<Rightarrow> Raised e (await_point cs2 (perform CloseBrowser st4))
                 | Reply u \<Rightarrow>
                     Returned ((emit_progress
                        (Log (Completed (length (results (await_point cs2 (perform CloseBrowser st4)))))
                           Success)
                        (await_point cs2 (perform CloseBrowser st4)))\<lparr>is_running := False\<rparr>))))"
    using b c
    by (simp add: scrape_def Let_def effective_limit_def session_start_def
        split: reply.splits outcome.splits)
  show ?thesis
  proof (cases r)
    case (Throws e)
    then show ?thesis using unfold s3 by auto
  next
    case (Reply u)
    show ?thesis
    proof (cases ?loop)
      case (Raised e s)
      then show ?thesis using unfold Reply sl by auto
    next
      case (Blocked s)
      then show ?thesis using unfold Reply sl by auto
    next
      case (Returned st4)
      then have s4: "steps any_effect ?m ?st0 st4" using sl by simp
      then have s5: "steps any_effect ?m ?st0 (await_point cs2 (perform CloseBrowser st4))"
        by (intro steps_await steps_perform) (simp_all add: any_effect_def)
      then have s6: "steps any_effect ?m ?st0 (emit_progress ev
                       (await_point cs2 (perform CloseBrowser st4)))" for ev
        by (rule steps_emit)
      show ?thesis
      proof (cases r2)
        case Throws
        then show ?thesis using unfold Reply Returned s5 by auto
      next
        case r2: (Reply u2)
        then show ?thesis using unfold Reply Returned s6 by auto
      qed
    qed
  qed
qed

lemma dedup_inv_flag [simp]: "dedup_inv (st\<lparr>is_running := b\<rparr>) = dedup_inv st"
  by (simp add: dedup_inv_def)

lemma scrape_dedup: "dedup_inv (state_of (scrape env rubro depto pais cantidad expanded st))"
proof -
  have "dedup_inv (session_start st)"
    by (simp add: dedup_inv_def session_start_def)
  then show ?thesis
    using scrape_steps [of cantidad st env rubro depto pais expanded]
    by (auto dest: steps_dedup)
qed

text \<open>
  Claim C1. Whatever the page gives and in whatever order the extraction tasks of a
  batch run, no two records in \<^verbatim>\<open>results\<close> have the same key: this holds in the state
  in which \<^verbatim>\<open>scrape\<close> ends (returning, raising, or still waiting), and every sequence of
  steps of a batch keeps it. Each task does its test of \<^verbatim>\<open>_seen_keys\<close> and its two
  insertions in one step: it either changes nothing, or the key was not seen and now is,
  and the record is the new last result; a record whose key has been seen is discarded.
\<close>

theorem no_duplicate_keys:
  "dedup_inv (state_of (scrape env rubro depto pais cantidad expanded st))
   \<and> distinct (map key_of (results (state_of (scrape env rubro depto pais cantidad expanded st))))
   \<and> (dedup_inv (obj b) \<longrightarrow> dedup_inv (obj (run_batch m evs b)))
   \<and> (process_link_result m data st = st
       \<or> (\<exists>d. data = Some d \<and> nombre d \<noteq> [] \<and> key_of d \<notin> seen_keys st
              \<and> results (process_link_result m data st) = results st @ [d]
              \<and> seen_keys (process_link_result m data st) = insert (key_of d) (seen_keys st)))
   \<and> (key_of d' \<in> seen_keys st \<longrightarrow> process_link_result m (Some d') st = st)"
proof (intro conjI impI)
  show a: "dedup_inv (state_of (scrape env rubro depto pais cantidad expanded st))"
    by (rule scrape_dedup)
  then show "distinct (map key_of
               (results (state_of (scrape env rubro depto pais cantidad expanded st))))"
    by (simp add: dedup_inv_def)
  show "dedup_inv (obj (run_batch m evs b))" if "dedup_inv (obj b)"
  proof -
    have "steps any_effect m (obj b) (obj (run_batch m evs b))"
      by (rule steps_run_batch) (rule steps_refl)
    then show ?thesis using that by (rule steps_dedup)
  qed
  show "process_link_result m data st = st
       \<or> (\<exists>d. data = Some d \<and> nombre d \<noteq> [] \<and> key_of d \<notin> seen_keys st
              \<and> results (process_link_result m data st) = results st @ [d]
              \<and> seen_keys (process_link_result m data st) = insert (key_of d) (seen_keys st))"
    using process_link_result_cases [of m data st] by blast
  show "process_link_result m (Some d') st = st" if "key_of d' \<in> seen_keys st"
    using that by (rule process_link_result_seen)
qed

theorem no_duplicate_keys_witness:
  "dedup_inv (obj (new_batch running_scraper 2))
   \<and> dedup_inv (obj (run_batch 20 duplicate_schedule (new_batch running_scraper 2)))
   \<and> results (obj (run_batch 20 duplicate_schedule (new_batch running_scraper 2)))
       = [botica ''BOTICA  central '' ''av. principal 123  '']
   \<and> key_of (botica ''Botica Central'' ''Av. Principal 123'')
       \<in> seen_keys (obj (run_batch 20 duplicate_schedule (new_batch running_scraper 2)))"
proof -
  have a: "dedup_inv (obj (new_batch running_scraper 2))"
    by (simp add: dedup_inv_def new_batch_def running_scraper_def init_scraper_def)
  have b: "results (obj (run_batch 20 duplicate_schedule (new_batch running_scraper 2)))
       = [botica ''BOTICA  central '' ''av. principal 123  '']"
    by code_simp
  have c: "key_of (botica ''Botica Central'' ''Av. Principal 123'')
       \<in> seen_keys (obj (run_batch 20 duplicate_schedule (new_batch running_scraper 2)))"
    by code_simp
  show ?thesis
    using a b c
      no_duplicate_keys [of _ _ _ _ _ _ _ "new_batch running_scraper 2" 20 duplicate_schedule]
    by blast
qed

section \<open>Stopping the crawl\<close>

lemma filter_update_length:
  "i < length xs \<Longrightarrow>
     length (filter P (xs[i := x])) + (if P (xs ! i) then 1 else 0)
       = length (filter P xs) + (if P x then 1 else 0)"
proof (induction xs arbitrary: i)
  case Nil
  then show ?case by simp
next
  case (Cons y ys)
  show ?case
  proof (cases i)
    case 0
    then show ?thesis by simp
  next
    case (Suc j)
    with Cons.prems have "j < length ys" by simp
    from Cons.IH [OF this] Suc show ?thesis by simp
  qed
qed

lemma process_length:
  "length (results (process_link_result m d st)) \<le> length (results st) + 1"
  using process_link_result_cases [of m d st] by auto

lemma process_flags:
  "is_running (process_link_result m d st) = is_running st"
  using process_link_result_cases [of m d st] by auto

lemma control_stopped: "\<not> is_running st \<Longrightarrow> \<not> is_running (control c st)"
  by (cases c) (simp_all add: pause_def resume_def stop_def emit_progress_def perform_def)

lemma control_results: "results (control c st) = results st"
  by (cases c) (simp_all add: pause_def resume_def stop_def emit_progress_def perform_def)

lemma batch_step_stopped:
  assumes "\<not> is_running (obj b)"
  shows "\<not> is_running (obj (batch_step m ev b))"
    and "prefix (results (obj b)) (results (obj (batch_step m ev b)))"
    and "length (results (obj (batch_step m ev b))) + in_flight (batch_step m ev b)
           \<le> length (results (obj b)) + in_flight b"
proof -
  show "\<not> is_running (obj (batch_step m ev b))"
    using assms by (cases ev) (simp_all add: process_flags control_stopped)
  show "prefix (results (obj b)) (results (obj (batch_step m ev b)))"
    using process_link_result_grows [of "obj b" m]
    by (cases ev) (simp_all add: control_results)
  show "length (results (obj (batch_step m ev b))) + in_flight (batch_step m ev b)
           \<le> length (results (obj b)) + in_flight b"
  proof (cases ev)
    case (Begin i)
    then show ?thesis
      using assms filter_update_length [of i "tasks b" flying Ended]
      by (auto simp: in_flight_def flying_def)
  next
    case (Acquire i)
    then show ?thesis
      using filter_update_length [of i "tasks b" flying InFlight]
      by (auto simp: in_flight_def flying_def)
  next
    case (Finish i d)
    then show ?thesis
      using filter_update_length [of i "tasks b" flying Ended]
        process_length [of m d "obj b"]
      by (auto simp: in_flight_def flying_def)
  next
    case (Cancel i)
    then show ?thesis
      using filter_update_length [of i "tasks b" flying Ended]
      by (auto simp: in_flight_def flying_def)
  next
    case (Call c)
    then show ?thesis by (simp add: in_flight_def control_results)
  qed
qed

lemma run_batch_stopped:
  "\<not> is_running (obj b) \<Longrightarrow>
     \<not> is_running (obj (run_batch m evs b))
     \<and> prefix (results (obj b)) (results (obj (run_batch m evs b)))
     \<and> length (results (obj (run_batch m evs b))) + in_flight (run_batch m evs b)
          \<le> length (results (obj b)) + in_flight b"
  unfolding run_batch_def
proof (induction evs arbitrary: b)
  case Nil
  then show ?case by simp
next
  case (Cons ev evs)
  note s = batch_step_stopped [OF Cons.prems, of m ev]
  from Cons.IH [OF s(1)] s(2,3) show ?case
    by (auto intro: prefix_order.order_trans)
qed

lemma run_batch_after_stop:
  assumes "\<not> is_running (obj b)"
  shows "\<exists>extra. results (obj (run_batch m evs b)) = results (obj b) @ extra
           \<and> length extra \<le> in_flight b"
proof -
  from run_batch_stopped [OF assms, of m evs]
  have p: "prefix (results (obj b)) (results (obj (run_batch m evs b)))"
    and l: "length (results (obj (run_batch m evs b))) \<le> length (results (obj b)) + in_flight b"
    by auto
  from p obtain extra where e: "results (obj (run_batch m evs b)) = results (obj b) @ extra"
    by (auto simp: prefix_def)
  with l have "length extra \<le> in_flight b" by simp
  with e show ?thesis by blast
qed

lemma location_loop_stopped:
  "\<not> is_running st \<Longrightarrow> location_loop env m terms n_locs loc_idx locs st = Returned st"
  by (cases locs) simp_all

lemma term_loop_stopped:
  "\<not> is_running st \<Longrightarrow>
     term_loop env m n_terms n_locs loc_idx location term_idx terms st = Returned st"
  by (cases terms) simp_all

lemma wait_stopped: "\<not> is_running st \<Longrightarrow> wait_if_paused polls st = Returned st"
  by (cases polls) simp_all

lemma scroll_extensive_stopped:
  assumes "\<not> is_running st"
  shows "\<exists>s. scroll_extensive env m st = Returned s \<and> \<not> is_running s
           \<and> results s = results st
           \<and> done_count ScrollFeed s = done_count ScrollFeed st
           \<and> done_count LocateLinks s = done_count LocateLinks st"
proof -
  obtain r cs where w: "wait_selector env = (r, cs)" by (cases "wait_selector env")
  obtain r2 cs2 where l: "last_count env = (r2, cs2)" by (cases "last_count env")
  let ?A = "\<lambda>e. e = WaitForSelector \<or> e = CountFeed"
  let ?st1 = "await_point cs (perform WaitForSelector (emit_progress (Log LoadingResults Info) st))"
  let ?v0 = "\<lparr>previous = 0, no_change_count = 0, scroll_count = 0\<rparr>"
  have e1: "extends ?A st ?st1"
    by (intro extends_intros extends_refl) simp
  then have "\<not> is_running ?st1" using assms by (simp add: extends_def)
  then have loop: "scroll_loop env m ?v0 ?st1 = Returned (?v0, ?st1)"
    by (simp add: scroll_loop_exit)
  have e2: "extends ?A st (emit_progress ev ?st1)" for ev
    by (intro extends_intros extends_refl) simp
  have e3: "extends ?A st (emit_progress ev (await_point cs2 (perform CountFeed ?st1)))" for ev
    by (intro extends_intros extends_refl) simp_all
  have fin: "\<not> is_running s \<and> results s = results st
           \<and> done_count ScrollFeed s = done_count ScrollFeed st
           \<and> done_count LocateLinks s = done_count LocateLinks st"
    if "extends ?A st s" for s
    using that assms extends_done_count [OF that, of ScrollFeed]
      extends_done_count [OF that, of LocateLinks]
    by (simp add: extends_def)
  show ?thesis
  proof (cases r)
    case (Throws e)
    then show ?thesis using w fin [OF e2] by (simp add: scroll_extensive_def)
  next
    case (Reply u)
    then show ?thesis
      using w l loop fin [OF e3]
      by (cases r2) (simp_all add: scroll_extensive_def)
  qed
qed

lemma visit_stopped:
  assumes "\<not> is_running st"
  shows "\<exists>s. visit env m announce search_term location st = Leave (Returned s)
           \<and> \<not> is_running s \<and> results s = results st
           \<and> done_count ScrollFeed s = done_count ScrollFeed st
           \<and> done_count LocateLinks s = done_count LocateLinks st"
proof -
  let ?url = "''https://www.google.com/maps/search/''
               @ py_replace_char (CHR '' '') (CHR ''+'') (search_term @ '' en '' @ location)"
  let ?st2 = "case announce of None \<Rightarrow> st | Some msg \<Rightarrow> emit_progress (Log msg Info) st"
  let ?st3 = "goto_retry (page_goto env) ?url 1 ?st2"
  have "extends (nav_effect ?url) st ?st2"
    by (cases announce) (simp_all add: extends_emit)
  then have e3: "extends (nav_effect ?url) st ?st3"
    by (rule extends_goto_retry)
  then have s3: "\<not> is_running ?st3" "results ?st3 = results st"
    using assms by (simp_all add: extends_def)
  have c3: "done_count ScrollFeed ?st3 = done_count ScrollFeed st"
    "done_count LocateLinks ?st3 = done_count LocateLinks st"
    using extends_done_count [OF e3, of ScrollFeed] extends_done_count [OF e3, of LocateLinks]
    by (simp_all add: nav_effect_def)
  from scroll_extensive_stopped [OF s3(1), of "scrolling env" m]
  obtain s where s: "scroll_extensive (scrolling env) m ?st3 = Returned s" "\<not> is_running s"
    "results s = results ?st3" "done_count ScrollFeed s = done_count ScrollFeed ?st3"
    "done_count LocateLinks s = done_count LocateLinks ?st3"
    by blast
  have "visit env m announce search_term location st = Leave (Returned s)"
    using s(1,2) by (simp add: visit_def Let_def wait_stopped [OF assms])
  then show ?thesis using s s3 c3 by simp
qed

lemma stop_flag: "\<not> is_running (stop st)"
  by (simp add: stop_def emit_progress_def perform_def)

lemma stop_results: "results (stop st) = results st"
  by (simp add: stop_def emit_progress_def perform_def)

lemma status_after_stop: "\<not> reply_is_running (get_status (snd (stop_scraper g)))"
  by (cases "scraper g") (simp_all add: stop_scraper_def get_status_def stop_flag)

lemma begin_stopped:
  "\<not> is_running (obj b) \<Longrightarrow> i < length (tasks b) \<and> tasks b ! i = NotStarted \<Longrightarrow>
     batch_step m (Begin i) b = b\<lparr>tasks := (tasks b)[i := Ended]\<rparr>"
  by simp

text \<open>
  Claim C7 as it is written says that no record is appended after \<^verbatim>\<open>stop\<close>. A task
  that holds the semaphore when \<^verbatim>\<open>stop\<close> is called does not test \<^verbatim>\<open>is_running\<close>
  again: with no result at the call of \<^verbatim>\<open>stop\<close>, the list of results has one record
  once that task has run lines 329 to 333.
\<close>

theorem results_after_stop_counterexample:
  "stopped_batch = batch_step 20 (Call Stop)
                     (run_batch 20 [Begin 0, Acquire 0] (new_batch running_scraper 2))
   \<and> \<not> is_running (obj stopped_batch)
   \<and> results (obj stopped_batch) = []
   \<and> results (obj (run_batch 20 late_schedule stopped_batch))
       = [botica ''Botica Central'' ''Av. Principal 123'']"
  by code_simp

text \<open>
  Claim C7, amended. \<^verbatim>\<open>stop\<close> puts \<^verbatim>\<open>is_running\<close> to false at once and changes no
  result, and \<^verbatim>\<open>get_status\<close> after \<^verbatim>\<open>stop_scraper\<close> reports that nothing runs. While
  the flag is down, the loop over the locations, the loop over the terms and the scroll
  loop return at their next test without a change of the state; an iteration for a term
  ends before the extraction, without a scroll and without locating the links; a task
  that has not started ends without waiting for the semaphore; the steps of a batch leave
  the flag down. The results after any steps of the batch are the results at the stop
  followed by at most one record for each task that was past its test of the flag and
  had not ended; so with no such task the results are exactly those at the stop.
\<close>

theorem stop_spec:
  assumes "\<not> is_running st" and "\<not> is_running (obj b)"
  shows
  "\<not> is_running (stop st0)
   \<and> results (stop st0) = results st0
   \<and> \<not> reply_is_running (get_status (snd (stop_scraper g)))
   \<and> location_loop envs m search_terms n_locs loc_idx locs st = Returned st
   \<and> term_loop envt m n_terms n_locs loc_idx location term_idx terms st = Returned st
   \<and> scroll_loop envc m v st = Returned (v, st)
   \<and> (\<exists>s. visit env m announce search_term location st = Leave (Returned s)
          \<and> \<not> is_running s \<and> results s = results st
          \<and> done_count ScrollFeed s = done_count ScrollFeed st
          \<and> done_count LocateLinks s = done_count LocateLinks st)
   \<and> (i < length (tasks b) \<and> tasks b ! i = NotStarted \<longrightarrow>
        batch_step m (Begin i) b = b\<lparr>tasks := (tasks b)[i := Ended]\<rparr>)
   \<and> \<not> is_running (obj (run_batch m evs b))
   \<and> (\<exists>extra. results (obj (run_batch m evs b)) = results (obj b) @ extra
          \<and> length extra \<le> in_flight b)"
proof (intro conjI impI)
  show "\<not> is_running (stop st0)" by (rule stop_flag)
  show "results (stop st0) = results st0" by (rule stop_results)
  show "\<not> reply_is_running (get_status (snd (stop_scraper g)))" by (rule status_after_stop)
  show "location_loop envs m search_terms n_locs loc_idx locs st = Returned st"
    using assms(1) by (rule location_loop_stopped)
  show "term_loop envt m n_terms n_locs loc_idx location term_idx terms st = Returned st"
    using assms(1) by (rule term_loop_stopped)
  show "scroll_loop envc m v st = Returned (v, st)"
    using assms(1) by (simp add: scroll_loop_exit)
  show "\<exists>s. visit env m announce search_term location st = Leave (Returned s)
          \<and> \<not> is_running s \<and> results s = results st
          \<and> done_count ScrollFeed s = done_count ScrollFeed st
          \<and> done_count LocateLinks s = done_count LocateLinks st"
    using assms(1) by (rule visit_stopped)
  show "batch_step m (Begin i) b = b\<lparr>tasks := (tasks b)[i := Ended]\<rparr>"
    if "i < length (tasks b) \<and> tasks b ! i = NotStarted"
    using assms(2) that by (rule begin_stopped)
  show "\<not> is_running (obj (run_batch m evs b))"
    using run_batch_stopped [OF assms(2), of m evs] by blast
  show "\<exists>extra. results (obj (run_batch m evs b)) = results (obj b) @ extra
          \<and> length extra \<le> in_flight b"
    using assms(2) by (rule run_batch_after_stop)
qed

theorem stop_spec_witness:
  "\<not> is_running (stop running_scraper)
   \<and> \<not> is_running (obj stopped_batch)
   \<and> \<not> reply_is_running (get_status (snd (stop_scraper running_app)))
   \<and> location_loop (\<lambda>i j. failing_iter_env) 20 [''botica''] 1 1 [''Tacna, Peru'']
         (stop running_scraper) = Returned (stop running_scraper)
   \<and> term_loop (\<lambda>j. failing_iter_env) 20 1 1 1 ''Tacna, Peru'' 1 [''botica'']
         (stop running_scraper) = Returned (stop running_scraper)
   \<and> scroll_loop steady_env 20 \<lparr>previous = 0, no_change_count = 0, scroll_count = 0\<rparr>
         (stop running_scraper)
       = Returned (\<lparr>previous = 0, no_change_count = 0, scroll_count = 0\<rparr>, stop running_scraper)
   \<and> (\<exists>s. visit failing_iter_env 20 None ''botica'' ''Tacna, Peru'' (stop running_scraper)
            = Leave (Returned s)
          \<and> results s = results (stop running_scraper)
          \<and> done_count ScrollFeed s = done_count ScrollFeed (stop running_scraper)
          \<and> done_count LocateLinks s = done_count LocateLinks (stop running_scraper))
   \<and> tasks stopped_batch = [InFlight, NotStarted]
   \<and> in_flight stopped_batch = 1
   \<and> batch_step 20 (Begin 1) stopped_batch = stopped_batch\<lparr>tasks := [InFlight, Ended]\<rparr>
   \<and> \<not> is_running (obj (run_batch 20 late_schedule stopped_batch))
   \<and> (\<exists>extra. results (obj (run_batch 20 late_schedule stopped_batch))
                  = results (obj stopped_batch) @ extra
          \<and> length extra \<le> 1)"
proof -
  have a: "\<not> is_running (stop running_scraper)"
    by (simp add: stop_def emit_progress_def perform_def)
  have b: "\<not> is_running (obj stopped_batch)"
    by code_simp
  have c: "tasks stopped_batch = [InFlight, NotStarted]"
    by code_simp
  have d: "in_flight stopped_batch = 1"
    unfolding in_flight_def c by (simp add: flying_def)
  have e: "(1::nat) < length (tasks stopped_batch) \<and> tasks stopped_batch ! 1 = NotStarted"
    unfolding c by simp
  have f: "(tasks stopped_batch)[1 := Ended] = [InFlight, Ended]"
    unfolding c by simp
  note t = stop_spec [where st = "stop running_scraper" and b = stopped_batch
        and ?st0.0 = running_scraper and g = running_app
        and envs = "\<lambda>i j. failing_iter_env" and m = 20 and search_terms = "[''botica'']"
        and n_locs = 1 and loc_idx = 1 and locs = "[''Tacna, Peru'']"
        and envt = "\<lambda>j. failing_iter_env" and n_terms = 1 and location = "''Tacna, Peru''"
        and term_idx = 1 and terms = "[''botica'']" and envc = steady_env
        and v = "\<lparr>previous = 0, no_change_count = 0, scroll_count = 0\<rparr>"
        and env = failing_iter_env and announce = None and search_term = "''botica''"
        and i = 1 and evs = late_schedule, OF a b]
  from t e have g: "batch_step 20 (Begin 1) stopped_batch
                      = stopped_batch\<lparr>tasks := [InFlight, Ended]\<rparr>"
    unfolding f by blast
  from t have h: "\<exists>extra. results (obj (run_batch 20 late_schedule stopped_batch))
                  = results (obj stopped_batch) @ extra
          \<and> length extra \<le> 1"
    unfolding d by blast
  from t a b c d g h show ?thesis by blast
qed

end
